theory Spec2Isabelle
  imports Complex_Main
begin

section \<open>Strings of the host language\<close>

text \<open>
  A text is a list of code units; this development reads the code units below 0x100, so a
  text is a \<open>string\<close>. The white space of \<open>String.prototype.trim\<close> and of the
  pattern class \<open>\s\<close> in that range is TAB, LF, VT, FF, CR, SP and NBSP.
\<close>

definition isWhiteSpace :: "char \<Rightarrow> bool" where
  "isWhiteSpace c \<longleftrightarrow>
     c = CHR 0x09 \<or> c = CHR 0x0A \<or> c = CHR 0x0B \<or> c = CHR 0x0C \<or> c = CHR 0x0D \<or>
     c = CHR 0x20 \<or> c = CHR 0xA0"

definition trim :: "string \<Rightarrow> string" where
  "trim s = rev (dropWhile isWhiteSpace (rev (dropWhile isWhiteSpace s)))"

definition endsWith :: "string \<Rightarrow> string \<Rightarrow> bool" where
  "endsWith s t \<longleftrightarrow> length t \<le> length s \<and> drop (length s - length t) s = t"

definition includesChar :: "string \<Rightarrow> char \<Rightarrow> bool" where
  "includesChar s c \<longleftrightarrow> c \<in> set s"

text \<open>\<open>(s.match(/c/g) || []).length\<close>: the number of occurrences of one character.\<close>

definition matchCount :: "char \<Rightarrow> string \<Rightarrow> nat" where
  "matchCount c s = length (filter (\<lambda>x. x = c) s)"

text \<open>\<open>s.lastIndexOf(c)\<close>: the index of the last occurrence, \<open>-1\<close> when there is none.\<close>

fun lastIndexFrom :: "int \<Rightarrow> int \<Rightarrow> char \<Rightarrow> string \<Rightarrow> int" where
  "lastIndexFrom i found c [] = found"
| "lastIndexFrom i found c (x # xs) = lastIndexFrom (i + 1) (if x = c then i else found) c xs"

definition lastIndexOf :: "string \<Rightarrow> char \<Rightarrow> int" where
  "lastIndexOf s c = lastIndexFrom 0 (-1) c s"

text \<open>
  \<open>slice(start, end)\<close> of strings and arrays: a negative index counts from the end, and
  both indices are clamped to the length.
\<close>

definition relIndex :: "nat \<Rightarrow> int \<Rightarrow> nat" where
  "relIndex len i = (if i < 0 then nat (max (int len + i) 0) else min (nat i) len)"

definition slice :: "'a list \<Rightarrow> int \<Rightarrow> int \<Rightarrow> 'a list" where
  "slice xs start end = (let from = relIndex (length xs) start; to = relIndex (length xs) end
     in take (to - from) (drop from xs))"

definition sliceFrom :: "'a list \<Rightarrow> int \<Rightarrow> 'a list" where
  "sliceFrom xs start = drop (relIndex (length xs) start) xs"

text \<open>
  \<open>c.repeat(n)\<close>. A negative count raises in the host language; the parser calls it
  with \<open>Math.max(0, ...)\<close> only.
\<close>

definition repeat :: "char \<Rightarrow> int \<Rightarrow> string" where
  "repeat c n = replicate (nat n) c"

text \<open>\<open>s.split(",")\<close>: the pieces between the commas; the empty text gives one empty piece.\<close>

fun split :: "char \<Rightarrow> string \<Rightarrow> string list" where
  "split sep [] = [[]]"
| "split sep (c # cs) =
     (if c = sep then [] # split sep cs
      else (case split sep cs of [] \<Rightarrow> [[c]] | p # ps \<Rightarrow> (c # p) # ps))"

text \<open>\<open>s.replace(/"/g, "")\<close>.\<close>

definition removeQuotes :: "string \<Rightarrow> string" where
  "removeQuotes s = filter (\<lambda>c. c \<noteq> CHR 0x22) s"

section \<open>The category catalog and the result map\<close>

record Category =
  name :: string
  description :: string
  keywordList :: "string list"

record BatchRepoInfo =
  repoId :: string
  repoDescription :: "string option"
  language :: "string option"
  stars :: int
  readme :: "string option"

text \<open>
  The keys of the result \<open>Map\<close>. The parser stores an entry under whatever the answer
  gave as \<open>id\<close>: a text or a number is a key by value, \<open>true\<close> is one key, and
  an object or an array is a key by identity, which is the position of the entry that
  carries it.
\<close>

datatype key = KStr string | KNum rat | KTrue | KRef nat

type_synonym resultMap = "key \<rightharpoonup> string list"

definition validCategoryNames :: "Category list \<Rightarrow> string set" where
  "validCategoryNames categories = set (map name categories)"

text \<open>\<open>categories[0]?.name || "Lang: ETC"\<close>: an empty name is falsy.\<close>

definition defaultCategory :: "Category list \<Rightarrow> string" where
  "defaultCategory categories =
     (case categories of [] \<Rightarrow> ''Lang: ETC''
      | c # _ \<Rightarrow> if name c = [] then ''Lang: ETC'' else name c)"

text \<open>The closing loop of both paths: a requested repository without an entry gets the default.\<close>

fun fillDefaults :: "BatchRepoInfo list \<Rightarrow> string \<Rightarrow> resultMap \<Rightarrow> resultMap" where
  "fillDefaults [] dflt m = m"
| "fillDefaults (repo # repos) dflt m =
     fillDefaults repos dflt
       (if m (KStr (repoId repo)) = None then m(KStr (repoId repo) \<mapsto> [dflt]) else m)"

section \<open>Recovery of a truncated answer\<close>

definition recoverTruncated :: "string \<Rightarrow> string" where
  "recoverTruncated jsonStr =
     (let openBraces = matchCount CHR ''{'' jsonStr;
          closeBraces = matchCount CHR ''}'' jsonStr;
          openBrackets = matchCount CHR ''['' jsonStr;
          closeBrackets = matchCount CHR '']'' jsonStr;
          lastCompleteIdx = lastIndexOf jsonStr CHR ''}'';
          cut = (if lastCompleteIdx > 0
                 then (let afterLast = sliceFrom jsonStr (lastCompleteIdx + 1)
                       in if includesChar afterLast CHR ''{'' \<and> \<not> includesChar afterLast CHR ''}''
                          then slice jsonStr 0 (lastCompleteIdx + 1) else jsonStr)
                 else jsonStr)
      in cut @ repeat CHR '']'' (max 0 (int openBrackets - int closeBrackets))
             @ repeat CHR ''}'' (max 0 (int openBraces - int closeBraces)))"

text \<open>The text that the batch parser hands to \<open>JSON.parse\<close>.\<close>

definition jsonStrOf :: "string \<Rightarrow> string" where
  "jsonStrOf text = (let jsonStr = trim text
     in if \<not> endsWith jsonStr ''}'' then recoverTruncated jsonStr else jsonStr)"

section \<open>The pattern scan\<close>

text \<open>
  The pattern is
  \<^verbatim>\<open>"id"\s*:\s*"([^"]+)"[^}]*"categories"\s*:\s*\[([^\]]*)\]\<close>.
  Every piece but \<^verbatim>\<open>[^}]*\<close> can match in one way only, since the character that must
  follow it is outside its class. \<^verbatim>\<open>[^}]*\<close> is greedy: it is tried longest first and
  gives characters back until the rest of the pattern matches.
\<close>

fun expect :: "string \<Rightarrow> string \<Rightarrow> string option" where
  "expect [] s = Some s"
| "expect (p # ps) [] = None"
| "expect (p # ps) (c # cs) = (if p = c then expect ps cs else None)"

definition skipSpace :: "string \<Rightarrow> string" where
  "skipSpace s = dropWhile isWhiteSpace s"

text \<open>\<^verbatim>\<open>"categories"\s*:\s*\[([^\]]*)\]\<close> at the head of a text: the group and what follows.\<close>

definition matchCategories :: "string \<Rightarrow> (string \<times> string) option" where
  \<open>matchCategories s =
     (case expect ''"categories"'' s of None \<Rightarrow> None
      | Some s1 \<Rightarrow>
        (case expect '':'' (skipSpace s1) of None \<Rightarrow> None
         | Some s2 \<Rightarrow>
           (case expect ''['' (skipSpace s2) of None \<Rightarrow> None
            | Some s3 \<Rightarrow>
              (case expect '']'' (dropWhile (\<lambda>c. c \<noteq> CHR '']'') s3) of None \<Rightarrow> None
               | Some rest \<Rightarrow> Some (takeWhile (\<lambda>c. c \<noteq> CHR '']'') s3, rest)))))\<close>

text \<open>\<^verbatim>\<open>[^}]*\<close> followed by the categories part, longest first.\<close>

fun matchGap :: "string \<Rightarrow> (string \<times> string) option" where
  "matchGap [] = matchCategories []"
| "matchGap (c # cs) =
     (if c = CHR ''}'' then matchCategories (c # cs)
      else (case matchGap cs of Some r \<Rightarrow> Some r | None \<Rightarrow> matchCategories (c # cs)))"

text \<open>The whole pattern at the head of a text: group 1, group 2 and what follows the match.\<close>

definition matchHere :: "string \<Rightarrow> (string \<times> string \<times> string) option" where
  \<open>matchHere s =
     (case expect ''"id"'' s of None \<Rightarrow> None
      | Some s1 \<Rightarrow>
        (case expect '':'' (skipSpace s1) of None \<Rightarrow> None
         | Some s2 \<Rightarrow>
           (case expect ''"'' (skipSpace s2) of None \<Rightarrow> None
            | Some s3 \<Rightarrow>
              (let ident = takeWhile (\<lambda>c. c \<noteq> CHR 0x22) s3
               in if ident = [] then None
                  else (case expect ''"'' (dropWhile (\<lambda>c. c \<noteq> CHR 0x22) s3) of None \<Rightarrow> None
                        | Some s4 \<Rightarrow>
                          (case matchGap s4 of None \<Rightarrow> None
                           | Some (cats, rest) \<Rightarrow> Some (ident, cats, rest)))))))\<close>

text \<open>\<open>linePattern.exec\<close> from a position: the leftmost match at or after it.\<close>

fun exec :: "string \<Rightarrow> (string \<times> string \<times> string) option" where
  "exec [] = matchHere []"
| "exec (c # cs) = (case matchHere (c # cs) of Some r \<Rightarrow> Some r | None \<Rightarrow> exec cs)"

lemma expect_length: "expect p s = Some r \<Longrightarrow> length s = length p + length r"
  by (induction p s rule: expect.induct) (auto split: if_splits)

lemma matchCategories_shorter: "matchCategories s = Some (g, r) \<Longrightarrow> length r < length s"
proof -
  assume m: "matchCategories s = Some (g, r)"
  from m obtain s1 where s1: \<open>expect ''"categories"'' s = Some s1\<close>
    by (auto simp: matchCategories_def split: option.splits)
  from m s1 obtain s2 where s2: "expect '':'' (skipSpace s1) = Some s2"
    by (auto simp: matchCategories_def split: option.splits)
  from m s1 s2 obtain s3 where s3: "expect ''['' (skipSpace s2) = Some s3"
    by (auto simp: matchCategories_def split: option.splits)
  from m s1 s2 s3 have r: "expect '']'' (dropWhile (\<lambda>c. c \<noteq> CHR '']'') s3) = Some r"
    by (auto simp: matchCategories_def split: option.splits)
  have "length r \<le> length s3"
    using expect_length [OF r] length_dropWhile_le [of "\<lambda>c. c \<noteq> CHR '']''" s3] by simp
  also have "\<dots> \<le> length s2"
    using expect_length [OF s3] length_dropWhile_le [of isWhiteSpace s2] by (simp add: skipSpace_def)
  also have "\<dots> \<le> length s1"
    using expect_length [OF s2] length_dropWhile_le [of isWhiteSpace s1] by (simp add: skipSpace_def)
  also have "\<dots> < length s"
    using expect_length [OF s1] by simp
  finally show ?thesis .
qed

lemma matchGap_shorter: "matchGap s = Some (g, r) \<Longrightarrow> length r < length s"
proof (induction s)
  case Nil
  then show ?case by (auto dest: matchCategories_shorter)
next
  case (Cons c cs)
  then show ?case
    by (fastforce split: if_splits option.splits dest: matchCategories_shorter)
qed

lemma matchHere_shorter: "matchHere s = Some (i, g, r) \<Longrightarrow> length r < length s"
proof -
  assume m: "matchHere s = Some (i, g, r)"
  from m obtain s1 where s1: \<open>expect ''"id"'' s = Some s1\<close>
    by (auto simp: matchHere_def split: option.splits)
  from m s1 obtain s2 where s2: "expect '':'' (skipSpace s1) = Some s2"
    by (auto simp: matchHere_def split: option.splits)
  from m s1 s2 obtain s3 where s3: \<open>expect ''"'' (skipSpace s2) = Some s3\<close>
    by (auto simp: matchHere_def split: option.splits)
  from m s1 s2 s3 obtain s4
    where s4: \<open>expect ''"'' (dropWhile (\<lambda>c. c \<noteq> CHR 0x22) s3) = Some s4\<close>
    by (auto simp: matchHere_def Let_def split: option.splits if_splits)
  from m s1 s2 s3 s4 have g: "matchGap s4 = Some (g, r)"
    by (auto simp: matchHere_def Let_def split: option.splits if_splits)
  have "length r < length s4"
    by (rule matchGap_shorter [OF g])
  also have "\<dots> \<le> length s3"
    using expect_length [OF s4] length_dropWhile_le [of "\<lambda>c. c \<noteq> CHR 0x22" s3] by simp
  also have "\<dots> \<le> length s2"
    using expect_length [OF s3] length_dropWhile_le [of isWhiteSpace s2] by (simp add: skipSpace_def)
  also have "\<dots> \<le> length s1"
    using expect_length [OF s2] length_dropWhile_le [of isWhiteSpace s1] by (simp add: skipSpace_def)
  also have "\<dots> \<le> length s"
    using expect_length [OF s1] by simp
  finally show ?thesis .
qed

lemma exec_shorter: "exec s = Some (i, g, r) \<Longrightarrow> length r < length s"
proof (induction s)
  case Nil
  then show ?case by (auto dest: matchHere_shorter)
next
  case (Cons c cs)
  then show ?case
    by (fastforce split: option.splits dest: matchHere_shorter)
qed

text \<open>
  \<open>while ((match = linePattern.exec(text)) !== null)\<close>: with the flag \<open>g\<close> each search
  starts where the match before it ended. The loop ends, since every match is at least
  four characters long.
\<close>

function execAll :: "string \<Rightarrow> (string \<times> string) list" where
  "execAll s = (case exec s of None \<Rightarrow> []
                | Some (ident, cats, rest) \<Rightarrow> (ident, cats) # execAll rest)"
  by pat_completeness auto
termination
  by (relation "measure length") (auto dest: exec_shorter)

declare execAll.simps [simp del]

text \<open>
  The body of the loop: split group 2 at the commas, trim each piece and drop its quotes,
  keep the names of the catalog, cut to the limit, and store the list when it is not empty
  and the identifier has no entry yet.
\<close>

definition extractCats :: "string set \<Rightarrow> int \<Rightarrow> string \<Rightarrow> string list" where
  "extractCats valid maxCategoriesPerRepo categoriesStr =
     slice (filter (\<lambda>c. c \<in> valid)
              (map (\<lambda>s. removeQuotes (trim s)) (split CHR '','' categoriesStr)))
       0 maxCategoriesPerRepo"

fun scanMatches :: "string set \<Rightarrow> int \<Rightarrow> (string \<times> string) list \<Rightarrow> resultMap \<Rightarrow> resultMap" where
  "scanMatches valid maxCategoriesPerRepo [] m = m"
| "scanMatches valid maxCategoriesPerRepo ((ident, categoriesStr) # ms) m =
     (let cats = extractCats valid maxCategoriesPerRepo categoriesStr
      in scanMatches valid maxCategoriesPerRepo ms
           (if length cats > 0 \<and> m (KStr ident) = None then m(KStr ident \<mapsto> cats) else m))"

text \<open>The \<open>catch\<close> block, entered with the map as the \<open>try\<close> block left it.\<close>

definition patternScan ::
  "string \<Rightarrow> BatchRepoInfo list \<Rightarrow> Category list \<Rightarrow> int \<Rightarrow> resultMap \<Rightarrow> resultMap" where
  "patternScan text repos categories maxCategoriesPerRepo m =
     fillDefaults repos (defaultCategory categories)
       (scanMatches (validCategoryNames categories) maxCategoriesPerRepo (execAll text) m)"

section \<open>Parsed values\<close>

text \<open>
  What \<open>JSON.parse\<close> returns. An object keeps its members in the order of the text; a
  name that occurs twice has the value of its last occurrence. A number is the rational
  that the text denotes; the rounding to binary64 is not modelled.
\<close>

datatype json =
    JNull
  | JBool bool
  | JNum rat
  | JStr string
  | JArr "json list"
  | JObj "(string \<times> json) list"

datatype error = SyntaxError | TypeError | InvalidStructure

text \<open>
  Reading a property: of \<open>null\<close> it is a \<open>TypeError\<close>; of an object it is the member's
  value or \<open>undefined\<close> (here \<open>None\<close>); the parsers read only \<open>results\<close>, \<open>id\<close> and
  \<open>categories\<close>, which no other value has.
\<close>

fun getProp :: "json \<Rightarrow> string \<Rightarrow> error + json option" where
  "getProp JNull k = Inl TypeError"
| "getProp (JObj members) k = Inr (map_of (rev members) k)"
| "getProp v k = Inr None"

fun truthy :: "json option \<Rightarrow> bool" where
  "truthy None = False"
| "truthy (Some JNull) = False"
| "truthy (Some (JBool b)) = b"
| "truthy (Some (JNum n)) = (n \<noteq> 0)"
| "truthy (Some (JStr s)) = (s \<noteq> [])"
| "truthy (Some (JArr xs)) = True"
| "truthy (Some (JObj members)) = True"

fun isArray :: "json option \<Rightarrow> bool" where
  "isArray (Some (JArr xs)) = True"
| "isArray v = False"

fun elements :: "json option \<Rightarrow> json list" where
  "elements (Some (JArr xs)) = xs"
| "elements v = []"

text \<open>The key under which \<open>resultMap.set(result.id, ...)\<close> stores entry number \<open>i\<close>.\<close>

fun keyOf :: "nat \<Rightarrow> json option \<Rightarrow> key" where
  "keyOf i (Some (JStr s)) = KStr s"
| "keyOf i (Some (JNum n)) = KNum n"
| "keyOf i (Some (JBool b)) = KTrue"
| "keyOf i v = KRef i"

text \<open>
  \<open>xs.filter((c) => validCategoryNames.has(c))\<close>: the set holds texts, so an element
  that is not a text is dropped.
\<close>

fun validNames :: "string set \<Rightarrow> json list \<Rightarrow> string list" where
  "validNames valid [] = []"
| "validNames valid (JStr s # cs) = (if s \<in> valid then s # validNames valid cs else validNames valid cs)"
| "validNames valid (c # cs) = validNames valid cs"

section \<open>The batch parser\<close>

text \<open>
  The body of \<open>for (const result of parsed.results)\<close>, for the entry at position
  \<open>i\<close>: it raises (reading \<open>id\<close> of \<open>null\<close>), skips the entry, or stores a list.
\<close>

definition processResult ::
  "string set \<Rightarrow> string \<Rightarrow> int \<Rightarrow> nat \<Rightarrow> json \<Rightarrow> resultMap \<Rightarrow> error + resultMap" where
  "processResult valid dflt maxCategoriesPerRepo i result m =
     (case getProp result ''id'' of
        Inl e \<Rightarrow> Inl e
      | Inr ident \<Rightarrow>
          if \<not> truthy ident then Inr m
          else (case getProp result ''categories'' of
                  Inl e \<Rightarrow> Inl e
                | Inr cats \<Rightarrow>
                    if \<not> isArray cats then Inr m
                    else (let validCategories =
                                slice (validNames valid (elements cats)) 0 maxCategoriesPerRepo
                          in Inr (m(keyOf i ident \<mapsto>
                                     (if length validCategories > 0 then validCategories
                                      else [dflt]))))))"

text \<open>
  The loop. It returns the map and, when an entry raised, the error; what the entries
  before that one stored stays in the map.
\<close>

fun processResults ::
  "string set \<Rightarrow> string \<Rightarrow> int \<Rightarrow> nat \<Rightarrow> json list \<Rightarrow> resultMap \<Rightarrow> error option \<times> resultMap" where
  "processResults valid dflt maxCategoriesPerRepo i [] m = (None, m)"
| "processResults valid dflt maxCategoriesPerRepo i (result # rest) m =
     (case processResult valid dflt maxCategoriesPerRepo i result m of
        Inl e \<Rightarrow> (Some e, m)
      | Inr m' \<Rightarrow> processResults valid dflt maxCategoriesPerRepo (Suc i) rest m')"

text \<open>
  The \<open>try\<close> block. \<open>parse\<close> stands for \<open>JSON.parse\<close>, with \<open>None\<close> for its
  \<open>SyntaxError\<close>. The block returns the map as it left it and the error it raised, if any.
\<close>

definition tryBatch ::
  "(string \<Rightarrow> json option) \<Rightarrow> string \<Rightarrow> BatchRepoInfo list \<Rightarrow> Category list \<Rightarrow> int
     \<Rightarrow> error option \<times> resultMap" where
  "tryBatch parse text repos categories maxCategoriesPerRepo =
     (case parse (jsonStrOf text) of
        None \<Rightarrow> (Some SyntaxError, Map.empty)
      | Some parsed \<Rightarrow>
          (case getProp parsed ''results'' of
             Inl e \<Rightarrow> (Some e, Map.empty)
           | Inr results \<Rightarrow>
               if \<not> truthy results \<or> \<not> isArray results then (Some InvalidStructure, Map.empty)
               else (case processResults (validCategoryNames categories)
                            (defaultCategory categories) maxCategoriesPerRepo 0
                            (elements results) Map.empty of
                       (Some e, m) \<Rightarrow> (Some e, m)
                     | (None, m) \<Rightarrow>
                         (None, fillDefaults repos (defaultCategory categories) m))))"

text \<open>
  \<open>parseBatchClassifierResponse\<close>: the \<open>try\<close> block, and the pattern scan when it raised.
  Nothing in the \<open>catch\<close> block can raise, so the result is always \<open>Inr\<close>.
\<close>

definition parseBatchClassifierResponse ::
  "(string \<Rightarrow> json option) \<Rightarrow> string \<Rightarrow> BatchRepoInfo list \<Rightarrow> Category list \<Rightarrow> int
     \<Rightarrow> error + resultMap" where
  "parseBatchClassifierResponse parse text repos categories maxCategoriesPerRepo =
     (case tryBatch parse text repos categories maxCategoriesPerRepo of
        (None, m) \<Rightarrow> Inr m
      | (Some e, m) \<Rightarrow> Inr (patternScan text repos categories maxCategoriesPerRepo m))"

section \<open>The single-item parser\<close>

record ClassifierResult =
  categoriesOf :: "string list"
  reason :: string

text \<open>\<open>categories[0].name\<close>: reading \<open>name\<close> of \<open>undefined\<close> raises.\<close>

definition firstName :: "Category list \<Rightarrow> error + string" where
  "firstName categories = (case categories of [] \<Rightarrow> Inl TypeError | c # _ \<Rightarrow> Inr (name c))"

definition trySingle ::
  "(string \<Rightarrow> json option) \<Rightarrow> string \<Rightarrow> Category list \<Rightarrow> int \<Rightarrow> error + ClassifierResult" where
  "trySingle parse text categories maxCategoriesPerRepo =
     (case parse (trim text) of
        None \<Rightarrow> Inl SyntaxError
      | Some parsed \<Rightarrow>
          (case getProp parsed ''categories'' of
             Inl e \<Rightarrow> Inl e
           | Inr cats \<Rightarrow>
               if \<not> truthy cats \<or> \<not> isArray cats then Inl InvalidStructure
               else (let validatedCategories =
                           slice (validNames (validCategoryNames categories) (elements cats))
                             0 maxCategoriesPerRepo
                     in if length validatedCategories = 0
                        then (case firstName categories of
                                Inl e \<Rightarrow> Inl e
                              | Inr n \<Rightarrow> Inr \<lparr>categoriesOf = validatedCategories @ [n], reason = []\<rparr>)
                        else Inr \<lparr>categoriesOf = validatedCategories, reason = []\<rparr>)))"

definition parseClassifierResponse ::
  "(string \<Rightarrow> json option) \<Rightarrow> string \<Rightarrow> Category list \<Rightarrow> int \<Rightarrow> error + ClassifierResult" where
  "parseClassifierResponse parse text categories maxCategoriesPerRepo =
     (case trySingle parse text categories maxCategoriesPerRepo of
        Inr r \<Rightarrow> Inr r
      | Inl e \<Rightarrow>
          (case firstName categories of
             Inl e' \<Rightarrow> Inl e'
           | Inr n \<Rightarrow> Inr \<lparr>categoriesOf = [n],
                            reason = ''Parsing failed, using default category''\<rparr>))"

section \<open>A reader for JSON texts\<close>

text \<open>
  The theorems below hold for every function in the place of \<open>JSON.parse\<close>. The closed
  examples need one, so here is the grammar of ECMA-404 as a reader: white space, the three
  literals, numbers, strings with their escapes, arrays and objects. An escape
  \<^verbatim>\<open>\uXXXX\<close> above \<^verbatim>\<open>\u00FF\<close> denotes a code unit outside the texts of this
  development and has no reading here. The fuel bounds the depth of the calls; twice the
  length of the text is enough, since every second call reads a character.
\<close>

definition isJsonSpace :: "char \<Rightarrow> bool" where
  "isJsonSpace c \<longleftrightarrow> c = CHR 0x20 \<or> c = CHR 0x09 \<or> c = CHR 0x0A \<or> c = CHR 0x0D"

definition skipJsonSpace :: "string \<Rightarrow> string" where
  "skipJsonSpace s = dropWhile isJsonSpace s"

definition isDigit :: "char \<Rightarrow> bool" where
  "isDigit c \<longleftrightarrow> (48::nat) \<le> of_char c \<and> of_char c \<le> (57::nat)"

definition hexValue :: "char \<Rightarrow> nat option" where
  "hexValue c = (let n = (of_char c :: nat)
     in if 48 \<le> n \<and> n \<le> 57 then Some (n - 48)
        else if 65 \<le> n \<and> n \<le> 70 then Some (n - 55)
        else if 97 \<le> n \<and> n \<le> 102 then Some (n - 87)
        else None)"

definition hex4 :: "char \<Rightarrow> char \<Rightarrow> char \<Rightarrow> char \<Rightarrow> char option" where
  "hex4 a b c d =
     (case (hexValue a, hexValue b, hexValue c, hexValue d) of
        (Some x, Some y, Some z, Some w) \<Rightarrow>
          (let n = ((x * 16 + y) * 16 + z) * 16 + w in if n < 256 then Some (char_of n) else None)
      | _ \<Rightarrow> None)"

definition unescape :: "char \<Rightarrow> char option" where
  "unescape e =
     (if e = CHR 0x22 \<or> e = CHR 0x5C \<or> e = CHR ''/'' then Some e
      else if e = CHR ''b'' then Some (CHR 0x08)
      else if e = CHR ''f'' then Some (CHR 0x0C)
      else if e = CHR ''n'' then Some (CHR 0x0A)
      else if e = CHR ''r'' then Some (CHR 0x0D)
      else if e = CHR ''t'' then Some (CHR 0x09)
      else None)"

text \<open>A string after its opening quote: its characters and what follows the closing quote.\<close>

fun readString :: "string \<Rightarrow> (string \<times> string) option" where
  "readString [] = None"
| "readString [c] = (if c = CHR 0x22 then Some ([], []) else None)"
| "readString (c # e # cs) =
     (if c = CHR 0x22 then Some ([], e # cs)
      else if c = CHR 0x5C then
        (if e = CHR ''u'' then
           (case cs of
              h1 # h2 # h3 # h4 # cs' \<Rightarrow>
                (case hex4 h1 h2 h3 h4 of
                   None \<Rightarrow> None
                 | Some ch \<Rightarrow>
                     (case readString cs' of None \<Rightarrow> None | Some (s, r) \<Rightarrow> Some (ch # s, r)))
            | _ \<Rightarrow> None)
         else (case unescape e of
                 None \<Rightarrow> None
               | Some ch \<Rightarrow>
                   (case readString cs of None \<Rightarrow> None | Some (s, r) \<Rightarrow> Some (ch # s, r))))
      else if (of_char c :: nat) < 32 then None
      else (case readString (e # cs) of None \<Rightarrow> None | Some (s, r) \<Rightarrow> Some (c # s, r)))"

definition natOfDigits :: "string \<Rightarrow> nat" where
  "natOfDigits ds = foldl (\<lambda>a c. 10 * a + (of_char c - 48)) 0 ds"

definition scale10 :: "rat \<Rightarrow> int \<Rightarrow> rat" where
  "scale10 x k = (if k \<ge> 0 then x * 10 ^ nat k else x / 10 ^ nat (- k))"

text \<open>
  A number: an optional minus, \<open>0\<close> or digits without a leading zero, an optional
  fraction, an optional exponent.
\<close>

definition readFraction :: "string \<Rightarrow> (string \<times> string) option" where
  "readFraction s =
     (case s of
        c # cs \<Rightarrow>
          if c = CHR ''.'' then
            (if takeWhile isDigit cs = [] then None
             else Some (takeWhile isDigit cs, dropWhile isDigit cs))
          else Some ([], s)
      | [] \<Rightarrow> Some ([], s))"

definition readExponent :: "string \<Rightarrow> (int \<times> string) option" where
  "readExponent s =
     (case s of
        c # cs \<Rightarrow>
          if c = CHR ''e'' \<or> c = CHR ''E'' then
            (let neg = (case cs of d # _ \<Rightarrow> d = CHR ''-'' | [] \<Rightarrow> False);
                 signed = (case cs of d # _ \<Rightarrow> d = CHR ''-'' \<or> d = CHR ''+'' | [] \<Rightarrow> False);
                 ds = (if signed then tl cs else cs)
             in if takeWhile isDigit ds = [] then None
                else Some
                  ((if neg then - int (natOfDigits (takeWhile isDigit ds))
                    else int (natOfDigits (takeWhile isDigit ds))),
                   dropWhile isDigit ds))
          else Some (0, s)
      | [] \<Rightarrow> Some (0, s))"

definition readNumber :: "string \<Rightarrow> (rat \<times> string) option" where
  "readNumber s =
     (let neg = (case s of c # _ \<Rightarrow> c = CHR ''-'' | [] \<Rightarrow> False);
          s1 = (if neg then tl s else s);
          ip = takeWhile isDigit s1
      in if ip = [] \<or> (length ip > 1 \<and> hd ip = CHR ''0'') then None
         else (case readFraction (dropWhile isDigit s1) of
                 None \<Rightarrow> None
               | Some (fp, s2) \<Rightarrow>
                   (case readExponent s2 of
                      None \<Rightarrow> None
                    | Some (ex, s3) \<Rightarrow>
                        Some (scale10 ((if neg then - 1 else 1) * of_nat (natOfDigits (ip @ fp)))
                                (ex - int (length fp)),
                              s3))))"

fun readValue :: "nat \<Rightarrow> string \<Rightarrow> (json \<times> string) option"
  and readElements :: "nat \<Rightarrow> string \<Rightarrow> (json list \<times> string) option"
  and readMembers :: "nat \<Rightarrow> string \<Rightarrow> ((string \<times> json) list \<times> string) option" where
  "readValue 0 s = None"
| "readValue (Suc n) [] = None"
| "readValue (Suc n) (c # cs) =
     (if c = CHR ''{'' then
        (case skipJsonSpace cs of
           [] \<Rightarrow> None
         | d # r \<Rightarrow>
             if d = CHR ''}'' then Some (JObj [], r)
             else (case readMembers n (d # r) of
                     None \<Rightarrow> None | Some (ms, r') \<Rightarrow> Some (JObj ms, r')))
      else if c = CHR ''['' then
        (case skipJsonSpace cs of
           [] \<Rightarrow> None
         | d # r \<Rightarrow>
             if d = CHR '']'' then Some (JArr [], r)
             else (case readElements n (d # r) of
                     None \<Rightarrow> None | Some (vs, r') \<Rightarrow> Some (JArr vs, r')))
      else if c = CHR 0x22 then
        (case readString cs of None \<Rightarrow> None | Some (s, r) \<Rightarrow> Some (JStr s, r))
      else if c = CHR ''t'' then
        (case expect ''rue'' cs of None \<Rightarrow> None | Some r \<Rightarrow> Some (JBool True, r))
      else if c = CHR ''f'' then
        (case expect ''alse'' cs of None \<Rightarrow> None | Some r \<Rightarrow> Some (JBool False, r))
      else if c = CHR ''n'' then
        (case expect ''ull'' cs of None \<Rightarrow> None | Some r \<Rightarrow> Some (JNull, r))
      else (case readNumber (c # cs) of None \<Rightarrow> None | Some (x, r) \<Rightarrow> Some (JNum x, r)))"
| "readElements 0 s = None"
| "readElements (Suc n) s =
     (case readValue n s of
        None \<Rightarrow> None
      | Some (v, r) \<Rightarrow>
          (case skipJsonSpace r of
             [] \<Rightarrow> None
           | d # r1 \<Rightarrow>
               if d = CHR '']'' then Some ([v], r1)
               else if d = CHR '','' then
                 (case readElements n (skipJsonSpace r1) of
                    None \<Rightarrow> None | Some (vs, r2) \<Rightarrow> Some (v # vs, r2))
               else None))"
| "readMembers 0 s = None"
| "readMembers (Suc n) [] = None"
| "readMembers (Suc n) (c # cs) =
     (if c \<noteq> CHR 0x22 then None
      else (case readString cs of
              None \<Rightarrow> None
            | Some (k, r) \<Rightarrow>
                (case skipJsonSpace r of
                   [] \<Rightarrow> None
                 | d # r1 \<Rightarrow>
                     if d \<noteq> CHR '':'' then None
                     else (case readValue n (skipJsonSpace r1) of
                             None \<Rightarrow> None
                           | Some (v, r2) \<Rightarrow>
                               (case skipJsonSpace r2 of
                                  [] \<Rightarrow> None
                                | d' # r3 \<Rightarrow>
                                    if d' = CHR ''}'' then Some ([(k, v)], r3)
                                    else if d' = CHR '','' then
                                      (case readMembers n (skipJsonSpace r3) of
                                         None \<Rightarrow> None
                                       | Some (ms, r4) \<Rightarrow> Some ((k, v) # ms, r4))
                                    else None)))))"

definition JSON_parse :: "string \<Rightarrow> json option" where
  "JSON_parse text =
     (case readValue (2 * length text + 2) (skipJsonSpace text) of
        None \<Rightarrow> None
      | Some (v, r) \<Rightarrow> if skipJsonSpace r = [] then Some v else None)"

section \<open>Facts about the helpers\<close>

lemma slice_0_nonneg: "0 \<le> n \<Longrightarrow> slice xs 0 n = take (nat n) xs"
  by (simp add: slice_def relIndex_def Let_def min_def)

lemma set_slice_subset: "set (slice xs a b) \<subseteq> set xs"
proof -
  have "set (slice xs a b) \<subseteq> set (drop (relIndex (length xs) a) xs)"
    by (simp add: slice_def Let_def set_take_subset)
  also have "\<dots> \<subseteq> set xs"
    by (rule set_drop_subset)
  finally show ?thesis .
qed

lemma length_slice_0_le: "0 \<le> n \<Longrightarrow> length (slice xs 0 n) \<le> nat n"
  by (simp add: slice_0_nonneg)

lemma set_validNames: "set (validNames valid cs) \<subseteq> valid"
  by (induction valid cs rule: validNames.induct) auto

lemma set_extractCats: "set (extractCats valid n g) \<subseteq> valid"
proof -
  have "set (extractCats valid n g)
          \<subseteq> set (filter (\<lambda>c. c \<in> valid)
                  (map (\<lambda>s. removeQuotes (trim s)) (split CHR '','' g)))"
    unfolding extractCats_def by (rule set_slice_subset)
  then show ?thesis by auto
qed

lemma length_extractCats: "0 \<le> n \<Longrightarrow> length (extractCats valid n g) \<le> nat n"
  unfolding extractCats_def by (rule length_slice_0_le)

text \<open>
  The shape of every stored list: not empty, made of catalog names or the one default,
  and within the limit when the limit is at least one.
\<close>

definition stored :: "string set \<Rightarrow> string \<Rightarrow> int \<Rightarrow> string list \<Rightarrow> bool" where
  "stored valid dflt n v \<longleftrightarrow>
     v \<noteq> [] \<and> (set v \<subseteq> valid \<or> v = [dflt]) \<and> (1 \<le> n \<longrightarrow> length v \<le> nat n)"

lemma stored_default: "stored valid dflt n [dflt]"
  by (auto simp: stored_def)

lemma stored_extractCats: "extractCats valid n g \<noteq> [] \<Longrightarrow> stored valid dflt n (extractCats valid n g)"
  using set_extractCats [of valid n g] length_extractCats [of n valid g]
  by (auto simp: stored_def)

lemma stored_validNames:
  "slice (validNames valid cs) 0 n \<noteq> [] \<Longrightarrow> stored valid dflt n (slice (validNames valid cs) 0 n)"
  using set_slice_subset [of "validNames valid cs" 0 n] set_validNames [of valid cs]
    length_slice_0_le [of n "validNames valid cs"]
  by (auto simp: stored_def)

lemma fillDefaults_lookup:
  "fillDefaults repos dflt m k =
     (case m k of Some v \<Rightarrow> Some v
      | None \<Rightarrow> if k \<in> KStr ` repoId ` set repos then Some [dflt] else None)"
proof (induction repos arbitrary: m)
  case Nil
  then show ?case by (simp split: option.splits)
next
  case (Cons repo repos)
  show ?case
    by (auto simp: Cons.IH split: option.splits)
qed

lemma scanMatches_lookup:
  "scanMatches valid n ms m (KStr i) =
     (case m (KStr i) of Some v \<Rightarrow> Some v
      | None \<Rightarrow>
          (case find (\<lambda>(j, g). j = i \<and> extractCats valid n g \<noteq> []) ms of
             Some (j, g) \<Rightarrow> Some (extractCats valid n g)
           | None \<Rightarrow> None))"
proof (induction ms arbitrary: m)
  case Nil
  then show ?case by (simp split: option.splits)
next
  case (Cons a ms)
  obtain j g where a: "a = (j, g)" by (cases a)
  show ?case
    unfolding a by (auto simp: Cons.IH Let_def split: option.splits)
qed

lemma scanMatches_other: "\<forall>i. k \<noteq> KStr i \<Longrightarrow> scanMatches valid n ms m k = m k"
proof (induction ms arbitrary: m)
  case Nil
  then show ?case by simp
next
  case (Cons a ms)
  obtain j g where a: "a = (j, g)" by (cases a)
  from Cons show ?case
    unfolding a by (auto simp: Let_def)
qed

lemma scanMatches_stored:
  assumes "\<forall>k v. m k = Some v \<longrightarrow> stored valid dflt n v"
  shows "\<forall>k v. scanMatches valid n ms m k = Some v \<longrightarrow> stored valid dflt n v"
  using assms
proof (induction ms arbitrary: m)
  case Nil
  then show ?case by simp
next
  case (Cons a ms)
  obtain j g where a: "a = (j, g)" by (cases a)
  let ?m' = "if length (extractCats valid n g) > 0 \<and> m (KStr j) = None
             then m(KStr j \<mapsto> extractCats valid n g) else m"
  have "\<forall>k v. ?m' k = Some v \<longrightarrow> stored valid dflt n v"
    using Cons.prems stored_extractCats [of valid n g dflt] by auto
  from Cons.IH [OF this] show ?case
    unfolding a by (simp add: Let_def)
qed

lemma fillDefaults_stored:
  assumes "\<forall>k v. m k = Some v \<longrightarrow> stored valid dflt n v"
  shows "\<forall>k v. fillDefaults repos dflt m k = Some v \<longrightarrow> stored valid dflt n v"
  using assms stored_default [of valid dflt n]
  by (auto simp: fillDefaults_lookup split: option.splits if_splits)

lemma upd_stored:
  assumes "\<forall>k v. m k = Some v \<longrightarrow> stored valid dflt n v" and "stored valid dflt n w"
  shows "\<forall>k v. (m(k0 \<mapsto> w)) k = Some v \<longrightarrow> stored valid dflt n v"
  using assms by auto

text \<open>The list that the loop body stores for an entry with the \<open>categories\<close> value \<open>cats\<close>.\<close>

definition entryFor :: "string set \<Rightarrow> string \<Rightarrow> int \<Rightarrow> json option \<Rightarrow> string list" where
  "entryFor valid dflt n cats =
     (if length (slice (validNames valid (elements cats)) 0 n) > 0
      then slice (validNames valid (elements cats)) 0 n else [dflt])"

lemma processResult_eq:
  "processResult valid dflt n i r m =
     (case getProp r ''id'' of
        Inl e \<Rightarrow> Inl e
      | Inr ident \<Rightarrow>
          if \<not> truthy ident then Inr m
          else (case getProp r ''categories'' of
                  Inl e \<Rightarrow> Inl e
                | Inr cats \<Rightarrow>
                    if \<not> isArray cats then Inr m
                    else Inr (m(keyOf i ident \<mapsto> entryFor valid dflt n cats))))"
  by (simp add: processResult_def entryFor_def Let_def split: sum.splits)

lemma processResult_cases:
  assumes "processResult valid dflt n i r m = Inr m'"
  shows "m' = m \<or>
     (\<exists>ident cats. getProp r ''id'' = Inr ident \<and> truthy ident \<and>
        getProp r ''categories'' = Inr cats \<and> isArray cats \<and>
        m' = m(keyOf i ident \<mapsto> entryFor valid dflt n cats))"
  using assms unfolding processResult_eq
  by (auto split: sum.splits if_splits)

lemma stored_entryFor: "stored valid dflt n (entryFor valid dflt n cats)"
  unfolding entryFor_def
  using stored_default [of valid dflt n] stored_validNames [of valid "elements cats" n dflt]
  by simp

lemma processResult_stored:
  assumes "processResult valid dflt n i r m = Inr m'"
    and "\<forall>k v. m k = Some v \<longrightarrow> stored valid dflt n v"
  shows "\<forall>k v. m' k = Some v \<longrightarrow> stored valid dflt n v"
  using processResult_cases [OF assms(1)]
proof
  assume "m' = m"
  with assms(2) show ?thesis by simp
next
  assume "\<exists>ident cats. getProp r ''id'' = Inr ident \<and> truthy ident \<and>
        getProp r ''categories'' = Inr cats \<and> isArray cats \<and>
        m' = m(keyOf i ident \<mapsto> entryFor valid dflt n cats)"
  then obtain ident cats where m': "m' = m(keyOf i ident \<mapsto> entryFor valid dflt n cats)"
    by blast
  show ?thesis unfolding m' by (rule upd_stored [OF assms(2) stored_entryFor])
qed

lemma processResults_stored:
  assumes "\<forall>k v. m k = Some v \<longrightarrow> stored valid dflt n v"
  shows "\<forall>k v. snd (processResults valid dflt n i rs m) k = Some v \<longrightarrow> stored valid dflt n v"
  using assms
proof (induction rs arbitrary: i m)
  case Nil
  then show ?case by simp
next
  case (Cons r rs)
  show ?case
  proof (cases "processResult valid dflt n i r m")
    case (Inl e)
    with Cons.prems show ?thesis by simp
  next
    case (Inr m')
    from Cons.IH [OF processResult_stored [OF Inr Cons.prems], of "Suc i"] Inr
    show ?thesis by simp
  qed
qed

section \<open>Sample inputs\<close>

text \<open>\<open>result.get(k)\<close> on what the batch parser returned.\<close>

definition resultAt :: "error + resultMap \<Rightarrow> key \<Rightarrow> string list option" where
  "resultAt r k = (case r of Inl e \<Rightarrow> None | Inr m \<Rightarrow> m k)"

text \<open>The catalog and the shape of the repositories of the repository's own tests.\<close>

definition mockCategories :: "Category list" where
  "mockCategories =
     [\<lparr>name = ''Lang: Python'', description = ''Python projects'', keywordList = []\<rparr>,
      \<lparr>name = ''AI: LLM'', description = ''LLM projects'', keywordList = []\<rparr>,
      \<lparr>name = ''Web: Frontend'', description = ''Frontend projects'', keywordList = []\<rparr>]"

definition mockRepo :: "string \<Rightarrow> BatchRepoInfo" where
  "mockRepo i = \<lparr>repoId = i, repoDescription = Some ''t'', language = Some ''Python'',
                 stars = 1, readme = None\<rparr>"

definition oneResultText :: string where
  \<open>oneResultText = ''{"results":[{"id":"owner/repo1","categories":["AI: LLM"]}]}''\<close>

section \<open>The batch parser: coverage and validity\<close>

lemma tryBatch_stored:
  "\<forall>k v. snd (tryBatch parse text repos categories n) k = Some v \<longrightarrow>
     stored (validCategoryNames categories) (defaultCategory categories) n v"
proof -
  let ?valid = "validCategoryNames categories" and ?d = "defaultCategory categories"
  have e: "\<forall>k v. (Map.empty :: resultMap) k = Some v \<longrightarrow> stored ?valid ?d n v" by simp
  show ?thesis
  proof (cases "parse (jsonStrOf text)")
    case None
    then show ?thesis by (simp add: tryBatch_def)
  next
    case (Some parsed)
    show ?thesis
    proof (cases "getProp parsed ''results''")
      case (Inl err)
      with Some show ?thesis by (simp add: tryBatch_def)
    next
      case (Inr results)
      show ?thesis
      proof (cases "\<not> truthy results \<or> \<not> isArray results")
        case True
        with Some Inr show ?thesis by (auto simp: tryBatch_def)
      next
        case False
        obtain err m where p: "processResults ?valid ?d n 0 (elements results) Map.empty = (err, m)"
          by (cases "processResults ?valid ?d n 0 (elements results) Map.empty")
        have m: "\<forall>k v. m k = Some v \<longrightarrow> stored ?valid ?d n v"
          using processResults_stored [OF e, of 0 "elements results"] p by simp
        show ?thesis
        proof (cases err)
          case None
          have "snd (tryBatch parse text repos categories n) = fillDefaults repos ?d m"
            using Some Inr False p None by (simp add: tryBatch_def)
          then show ?thesis using fillDefaults_stored [OF m] by simp
        next
          case (Some a)
          have "snd (tryBatch parse text repos categories n) = m"
            using \<open>parse (jsonStrOf text) = Some parsed\<close> Inr False p Some by (simp add: tryBatch_def)
          then show ?thesis using m by simp
        qed
      qed
    qed
  qed
qed

lemma parseBatch_cases:
  "parseBatchClassifierResponse parse text repos categories n =
     Inr (case fst (tryBatch parse text repos categories n) of
            None \<Rightarrow> snd (tryBatch parse text repos categories n)
          | Some e \<Rightarrow> patternScan text repos categories n
                        (snd (tryBatch parse text repos categories n)))"
  by (simp add: parseBatchClassifierResponse_def split: prod.splits option.splits)

lemma tryBatch_success_covers:
  assumes "fst (tryBatch parse text repos categories n) = None"
  shows "\<forall>repo \<in> set repos. snd (tryBatch parse text repos categories n) (KStr (repoId repo)) \<noteq> None"
proof -
  from assms obtain m where
    "snd (tryBatch parse text repos categories n) = fillDefaults repos (defaultCategory categories) m"
    by (auto simp: tryBatch_def split: option.splits sum.splits if_splits prod.splits)
  then show ?thesis
    by (auto simp: fillDefaults_lookup split: option.splits)
qed

lemma parseBatch_covers:
  assumes "parseBatchClassifierResponse parse text repos categories n = Inr m"
    and "repo \<in> set repos"
  shows "\<exists>v. m (KStr (repoId repo)) = Some v"
proof (cases "fst (tryBatch parse text repos categories n)")
  case None
  with assms(1) have "m = snd (tryBatch parse text repos categories n)"
    by (simp add: parseBatch_cases)
  with tryBatch_success_covers [OF None] assms(2) show ?thesis by auto
next
  case (Some e)
  with assms(1) have
    "m = patternScan text repos categories n (snd (tryBatch parse text repos categories n))"
    by (simp add: parseBatch_cases)
  with assms(2) show ?thesis
    by (simp add: patternScan_def fillDefaults_lookup split: option.splits)
qed

lemma parseBatch_stored:
  assumes "parseBatchClassifierResponse parse text repos categories n = Inr m"
    and "m k = Some v"
  shows "stored (validCategoryNames categories) (defaultCategory categories) n v"
proof (cases "fst (tryBatch parse text repos categories n)")
  case None
  with assms(1) have "m = snd (tryBatch parse text repos categories n)"
    by (simp add: parseBatch_cases)
  with tryBatch_stored [of parse "text" repos categories n] assms(2) show ?thesis by blast
next
  case (Some e)
  with assms(1) have m:
    "m = patternScan text repos categories n (snd (tryBatch parse text repos categories n))"
    by (simp add: parseBatch_cases)
  note scanned = scanMatches_stored [OF tryBatch_stored]
  have "\<forall>k v. patternScan text repos categories n (snd (tryBatch parse text repos categories n)) k
            = Some v \<longrightarrow>
          stored (validCategoryNames categories) (defaultCategory categories) n v"
    unfolding patternScan_def by (rule fillDefaults_stored [OF scanned])
  with m assms(2) show ?thesis by blast
qed

text \<open>
  Claim C1, as the code has it. For every text, every list of requested repositories, every
  catalog and every limit, and whatever \<open>JSON.parse\<close> does, the batch parser returns a
  map and raises nothing; the map has an entry for every requested identifier; every list
  in the map holds only names of the catalog or is the one-element list of the default
  category; and every list is no longer than the limit when the limit is at least one.
  (With a limit below one the default list, of length one, is longer than the limit.)
\<close>

theorem parseBatch_complete_and_valid:
  "\<exists>m. parseBatchClassifierResponse parse text repos categories maxCategoriesPerRepo = Inr m \<and>
       (\<forall>repo \<in> set repos. \<exists>v. m (KStr (repoId repo)) = Some v) \<and>
       (\<forall>k v. m k = Some v \<longrightarrow>
          (set v \<subseteq> validCategoryNames categories \<or> v = [defaultCategory categories]) \<and>
          (1 \<le> maxCategoriesPerRepo \<longrightarrow> int (length v) \<le> maxCategoriesPerRepo))"
proof -
  obtain m where m: "parseBatchClassifierResponse parse text repos categories maxCategoriesPerRepo = Inr m"
    by (simp add: parseBatch_cases)
  have cov: "\<forall>repo \<in> set repos. \<exists>v. m (KStr (repoId repo)) = Some v"
    using parseBatch_covers [OF m] by blast
  have "\<forall>k v. m k = Some v \<longrightarrow>
          (set v \<subseteq> validCategoryNames categories \<or> v = [defaultCategory categories]) \<and>
          (1 \<le> maxCategoriesPerRepo \<longrightarrow> int (length v) \<le> maxCategoriesPerRepo)"
  proof (intro allI impI)
    fix k v
    assume "m k = Some v"
    from parseBatch_stored [OF m this] show
      "(set v \<subseteq> validCategoryNames categories \<or> v = [defaultCategory categories]) \<and>
       (1 \<le> maxCategoriesPerRepo \<longrightarrow> int (length v) \<le> maxCategoriesPerRepo)"
      by (auto simp: stored_def)
  qed
  with m cov show ?thesis by blast
qed

lemma parse_oneResultText:
  "JSON_parse oneResultText =
     Some (JObj [(''results'', JArr [JObj [(''id'', JStr ''owner/repo1''),
                                          (''categories'', JArr [JStr ''AI: LLM''])]])])"
  by code_simp

lemma jsonStrOf_oneResultText: "jsonStrOf oneResultText = oneResultText"
  by code_simp

text \<open>
  With the limit 0 the claim's bound fails: the name of the answer is cut away, the default
  takes its place, and the list has one element.
\<close>

theorem length_bound_counterexample:
  "resultAt (parseBatchClassifierResponse JSON_parse oneResultText [mockRepo ''owner/repo1'']
               mockCategories 0) (KStr ''owner/repo1'') = Some [''Lang: Python''] \<and>
   \<not> int (length [''Lang: Python'']) \<le> 0"
  by code_simp


theorem parseBatch_complete_and_valid_witness:
  "mockRepo ''owner/repo2'' \<in> set [mockRepo ''owner/repo1'', mockRepo ''owner/repo2''] \<and>
   (1::int) \<le> 3 \<and>
   (\<exists>v. resultAt (parseBatchClassifierResponse JSON_parse oneResultText
                    [mockRepo ''owner/repo1'', mockRepo ''owner/repo2''] mockCategories 3)
              (KStr ''owner/repo2'') = Some v \<and>
        (set v \<subseteq> validCategoryNames mockCategories \<or> v = [defaultCategory mockCategories]) \<and>
        int (length v) \<le> 3)"
proof -
  from parseBatch_complete_and_valid [of JSON_parse oneResultText
      "[mockRepo ''owner/repo1'', mockRepo ''owner/repo2'']" mockCategories 3]
  obtain m where m: "parseBatchClassifierResponse JSON_parse oneResultText
        [mockRepo ''owner/repo1'', mockRepo ''owner/repo2''] mockCategories 3 = Inr m"
    and cov: "\<forall>repo \<in> set [mockRepo ''owner/repo1'', mockRepo ''owner/repo2''].
                \<exists>v. m (KStr (repoId repo)) = Some v"
    and val: "\<forall>k v. m k = Some v \<longrightarrow>
          (set v \<subseteq> validCategoryNames mockCategories \<or> v = [defaultCategory mockCategories]) \<and>
          ((1::int) \<le> 3 \<longrightarrow> int (length v) \<le> 3)"
    by blast
  from cov obtain v where v: "m (KStr ''owner/repo2'') = Some v"
    by (auto simp: mockRepo_def)
  with val have "(set v \<subseteq> validCategoryNames mockCategories \<or> v = [defaultCategory mockCategories])
      \<and> int (length v) \<le> 3"
    by auto
  with m v show ?thesis by (simp add: resultAt_def)
qed

section \<open>The pattern scan: which match is stored\<close>

definition twoMatchText :: string where
  \<open>twoMatchText = ''{"id":"owner/repo1","categories":["Invalid: One"]},{"id":"owner/repo1","categories":["AI: LLM"]}''\<close>

definition invalidGroup :: string where
  \<open>invalidGroup = ''"Invalid: One"''\<close>

definition llmGroup :: string where
  \<open>llmGroup = ''"AI: LLM"''\<close>

lemma patternScan_lookup:
  "patternScan text repos categories n m0 (KStr i) =
     (case m0 (KStr i) of
        Some v \<Rightarrow> Some v
      | None \<Rightarrow>
          (case find (\<lambda>(j, g). j = i \<and> extractCats (validCategoryNames categories) n g \<noteq> [])
                  (execAll text) of
             Some (j, g) \<Rightarrow> Some (extractCats (validCategoryNames categories) n g)
           | None \<Rightarrow> if i \<in> repoId ` set repos then Some [defaultCategory categories] else None))"
  by (auto simp: patternScan_def fillDefaults_lookup scanMatches_lookup split: option.splits)

lemma patternScan_other:
  "\<forall>i. k \<noteq> KStr i \<Longrightarrow> patternScan text repos categories n m0 k = m0 k"
  by (auto simp: patternScan_def fillDefaults_lookup scanMatches_other split: option.splits)

text \<open>
  Claim C2, as the code has it. When the \<open>try\<close> block raised, leaving the map \<open>m0\<close>,
  the batch parser returns the map of the pattern scan: an identifier that the \<open>try\<close>
  block had stored before it raised keeps that entry; otherwise the first match for the
  identifier whose filtered and truncated list is not empty gives the entry, and the matches
  for it after that one are ignored; otherwise a requested identifier gets the one-element
  default list, and any other identifier has no entry. Keys that are not texts stay as the
  \<open>try\<close> block left them.
\<close>

theorem patternScan_first_usable_match:
  assumes "tryBatch parse text repos categories maxCategoriesPerRepo = (Some e, m0)"
  shows "\<exists>m. parseBatchClassifierResponse parse text repos categories maxCategoriesPerRepo = Inr m \<and>
     (\<forall>i. m (KStr i) =
        (case m0 (KStr i) of
           Some v \<Rightarrow> Some v
         | None \<Rightarrow>
             (case find (\<lambda>(j, g). j = i \<and>
                       extractCats (validCategoryNames categories) maxCategoriesPerRepo g \<noteq> [])
                     (execAll text) of
                Some (j, g) \<Rightarrow>
                  Some (extractCats (validCategoryNames categories) maxCategoriesPerRepo g)
              | None \<Rightarrow>
                  if i \<in> repoId ` set repos then Some [defaultCategory categories] else None))) \<and>
     (\<forall>k. (\<forall>i. k \<noteq> KStr i) \<longrightarrow> m k = m0 k)"
proof -
  have "parseBatchClassifierResponse parse text repos categories maxCategoriesPerRepo =
          Inr (patternScan text repos categories maxCategoriesPerRepo m0)"
    using assms by (simp add: parseBatchClassifierResponse_def)
  then show ?thesis
    using patternScan_lookup [of "text" repos categories maxCategoriesPerRepo m0]
      patternScan_other [of _ "text" repos categories maxCategoriesPerRepo m0]
    by simp
qed

lemma tryBatch_twoMatchText:
  "tryBatch JSON_parse twoMatchText [mockRepo ''owner/repo1''] mockCategories 3 =
     (Some SyntaxError, Map.empty)"
proof -
  have "JSON_parse (jsonStrOf twoMatchText) = None" by code_simp
  then show ?thesis by (simp add: tryBatch_def)
qed

lemma execAll_twoMatchText:
  "execAll twoMatchText = [(''owner/repo1'', invalidGroup), (''owner/repo1'', llmGroup)]"
  by code_simp

lemma extractCats_invalidGroup: "extractCats (validCategoryNames mockCategories) 3 invalidGroup = []"
  by code_simp

lemma extractCats_llmGroup:
  "extractCats (validCategoryNames mockCategories) 3 llmGroup = [''AI: LLM'']"
  by code_simp

text \<open>
  The claim's "first match wins" fails on a text with two matches for one identifier of
  which the first names no category of the catalog: the first match stores nothing, and
  the second one gives the entry.
\<close>

theorem first_match_counterexample:
  "fst (tryBatch JSON_parse twoMatchText [mockRepo ''owner/repo1''] mockCategories 3)
     = Some SyntaxError \<and>
   execAll twoMatchText = [(''owner/repo1'', invalidGroup), (''owner/repo1'', llmGroup)] \<and>
   extractCats (validCategoryNames mockCategories) 3 invalidGroup = [] \<and>
   extractCats (validCategoryNames mockCategories) 3 llmGroup = [''AI: LLM''] \<and>
   resultAt (parseBatchClassifierResponse JSON_parse twoMatchText [mockRepo ''owner/repo1'']
               mockCategories 3) (KStr ''owner/repo1'') = Some [''AI: LLM'']"
proof -
  have "resultAt (parseBatchClassifierResponse JSON_parse twoMatchText [mockRepo ''owner/repo1'']
               mockCategories 3) (KStr ''owner/repo1'') = Some [''AI: LLM'']"
    by (simp add: parseBatchClassifierResponse_def tryBatch_twoMatchText resultAt_def
        patternScan_lookup execAll_twoMatchText extractCats_invalidGroup extractCats_llmGroup)
  then show ?thesis
    by (simp add: tryBatch_twoMatchText execAll_twoMatchText extractCats_invalidGroup
        extractCats_llmGroup)
qed

theorem patternScan_first_usable_match_witness:
  "tryBatch JSON_parse twoMatchText [mockRepo ''owner/repo1''] mockCategories 3
     = (Some SyntaxError, Map.empty) \<and>
   resultAt (parseBatchClassifierResponse JSON_parse twoMatchText [mockRepo ''owner/repo1'']
               mockCategories 3) (KStr ''owner/repo1'') = Some [''AI: LLM''] \<and>
   resultAt (parseBatchClassifierResponse JSON_parse twoMatchText [mockRepo ''owner/repo1'']
               mockCategories 3) (KStr ''owner/repo2'') = None"
proof -
  from patternScan_first_usable_match [OF tryBatch_twoMatchText]
  obtain m where m: "parseBatchClassifierResponse JSON_parse twoMatchText [mockRepo ''owner/repo1'']
        mockCategories 3 = Inr m"
    and l: "\<forall>i. m (KStr i) =
        (case Map.empty (KStr i) of
           Some v \<Rightarrow> Some v
         | None \<Rightarrow>
             (case find (\<lambda>(j, g). j = i \<and>
                       extractCats (validCategoryNames mockCategories) 3 g \<noteq> [])
                     (execAll twoMatchText) of
                Some (j, g) \<Rightarrow>
                  Some (extractCats (validCategoryNames mockCategories) 3 g)
              | None \<Rightarrow>
                  if i \<in> repoId ` set [mockRepo ''owner/repo1'']
                  then Some [defaultCategory mockCategories] else None))"
    by blast
  have "m (KStr ''owner/repo1'') = Some [''AI: LLM'']"
    unfolding l [rule_format]
    by (simp add: execAll_twoMatchText extractCats_invalidGroup extractCats_llmGroup)
  moreover have "m (KStr ''owner/repo2'') = None"
    unfolding l [rule_format]
    by (simp add: execAll_twoMatchText extractCats_invalidGroup extractCats_llmGroup mockRepo_def)
  ultimately show ?thesis
    using m tryBatch_twoMatchText by (simp add: resultAt_def)
qed

section \<open>The recovery of a truncated answer\<close>

lemma matchCount_count_list: "matchCount c s = count_list s c"
  by (induction s) (auto simp: matchCount_def)

lemma lastIndexFrom_absent: "c \<notin> set xs \<Longrightarrow> lastIndexFrom i found c xs = found"
  by (induction xs arbitrary: i found) auto

lemma lastIndexFrom_last:
  "c \<notin> set post \<Longrightarrow> lastIndexFrom i found c (pre @ c # post) = i + int (length pre)"
proof (induction pre arbitrary: i found)
  case Nil
  then show ?case by (simp add: lastIndexFrom_absent)
next
  case (Cons x pre)
  then show ?case by simp
qed

lemma lastIndexOf_absent: "c \<notin> set s \<Longrightarrow> lastIndexOf s c = - 1"
  by (simp add: lastIndexOf_def lastIndexFrom_absent)

lemma lastIndexOf_last: "c \<notin> set post \<Longrightarrow> lastIndexOf (pre @ c # post) c = int (length pre)"
  by (simp add: lastIndexOf_def lastIndexFrom_last)

lemma nat_int_Suc: "nat (int n + 1) = Suc n"
  by simp

lemma sliceFrom_after: "sliceFrom (pre @ c # post) (int (length pre) + 1) = post"
  by (simp add: sliceFrom_def relIndex_def nat_int_Suc)

lemma slice_upto: "slice (pre @ c # post) 0 (int (length pre) + 1) = pre @ [c]"
  by (simp add: slice_def relIndex_def Let_def nat_int_Suc)

text \<open>
  The closers that the recovery appends: as many \<open>]\<close> as open brackets lack a partner,
  then as many \<open>}\<close> as open braces lack one, counted on the trimmed text before any cut.
\<close>

definition closers :: "string \<Rightarrow> string" where
  "closers s =
     replicate (nat (max 0 (int (count_list s CHR ''['') - int (count_list s CHR '']'')))) CHR '']'' @
     replicate (nat (max 0 (int (count_list s CHR ''{'') - int (count_list s CHR ''}'')))) CHR ''}''"

lemma recoverTruncated_no_brace:
  "CHR ''}'' \<notin> set s \<Longrightarrow> recoverTruncated s = s @ closers s"
  by (simp add: recoverTruncated_def Let_def lastIndexOf_absent matchCount_count_list
      repeat_def closers_def)

lemma recoverTruncated_last_brace:
  assumes "s = pre @ CHR ''}'' # post" and "CHR ''}'' \<notin> set post"
  shows "recoverTruncated s =
     (if pre \<noteq> [] \<and> CHR ''{'' \<in> set post then pre @ ''}'' else s) @ closers s"
proof -
  have idx: "lastIndexOf s CHR ''}'' = int (length pre)"
    unfolding assms(1) by (rule lastIndexOf_last [OF assms(2)])
  have after: "sliceFrom s (int (length pre) + 1) = post"
    unfolding assms(1) by (rule sliceFrom_after)
  have upto: "slice s 0 (int (length pre) + 1) = pre @ ''}''"
    unfolding assms(1) by (rule slice_upto)
  show ?thesis
    using assms(2)
    by (simp add: recoverTruncated_def Let_def idx after upto includesChar_def
        matchCount_count_list repeat_def closers_def)
qed

lemma parseBatch_reads_jsonStrOf:
  assumes "p (jsonStrOf text) = q (jsonStrOf text)"
  shows "parseBatchClassifierResponse p text repos categories n =
         parseBatchClassifierResponse q text repos categories n"
  using assms by (simp add: parseBatchClassifierResponse_def tryBatch_def)

text \<open>
  Claim C3, as the code has it. Let \<open>s\<close> be the trimmed text, not ending with \<open>}\<close>.
  The text handed to \<open>JSON.parse\<close> is: \<open>s\<close> followed by the closers when \<open>s\<close> has
  no \<open>}\<close>; and when the last \<open>}\<close> of \<open>s\<close> stands between \<open>pre\<close> and \<open>post\<close>, the
  text cut after that \<open>}\<close> if \<open>pre\<close> is not empty and \<open>post\<close> has a \<open>{\<close>, the whole
  of \<open>s\<close> otherwise, followed by the closers. The parser reads \<open>JSON.parse\<close> at that
  text only: two functions that agree there give the same result.
\<close>

theorem recovery_of_truncated_text:
  assumes "s = trim text" and "\<not> endsWith s ''}''"
  shows "(CHR ''}'' \<notin> set s \<longrightarrow> jsonStrOf text = s @ closers s) \<and>
         (\<forall>pre post. s = pre @ CHR ''}'' # post \<and> CHR ''}'' \<notin> set post \<longrightarrow>
            jsonStrOf text =
              (if pre \<noteq> [] \<and> CHR ''{'' \<in> set post then pre @ ''}'' else s) @ closers s) \<and>
         (\<forall>p q. p (jsonStrOf text) = q (jsonStrOf text) \<longrightarrow>
            parseBatchClassifierResponse p text repos categories maxCategoriesPerRepo =
            parseBatchClassifierResponse q text repos categories maxCategoriesPerRepo)"
proof -
  have j: "jsonStrOf text = recoverTruncated s"
    using assms by (simp add: jsonStrOf_def)
  have a: "CHR ''}'' \<notin> set s \<longrightarrow> jsonStrOf text = s @ closers s"
    unfolding j by (simp add: recoverTruncated_no_brace)
  have b: "\<forall>pre post. s = pre @ CHR ''}'' # post \<and> CHR ''}'' \<notin> set post \<longrightarrow>
            jsonStrOf text =
              (if pre \<noteq> [] \<and> CHR ''{'' \<in> set post then pre @ ''}'' else s) @ closers s"
    unfolding j by (intro allI impI, elim conjE) (rule recoverTruncated_last_brace)
  have c: "\<forall>p q. p (jsonStrOf text) = q (jsonStrOf text) \<longrightarrow>
            parseBatchClassifierResponse p text repos categories maxCategoriesPerRepo =
            parseBatchClassifierResponse q text repos categories maxCategoriesPerRepo"
    by (intro allI impI) (rule parseBatch_reads_jsonStrOf)
  from a b c show ?thesis by (intro conjI)
qed


text \<open>The truncated answer of the repository's test, and its two parts around the last \<open>}\<close>.\<close>

definition truncatedText :: string where
  \<open>truncatedText = ''{"results": [{"id": "owner/repo1", "categories": ["Lang: Python"]}, {"id": "owner/repo2", "categories": ["AI: LLM"''\<close>

definition truncatedHead :: string where
  \<open>truncatedHead = ''{"results": [{"id": "owner/repo1", "categories": ["Lang: Python"]''\<close>

definition truncatedTail :: string where
  \<open>truncatedTail = '', {"id": "owner/repo2", "categories": ["AI: LLM"''\<close>

text \<open>
  The claim cuts at the last \<open>}\<close> wherever it stands. The code cuts only when its index
  is above 0: in \<open>}{\<close> the last \<open>}\<close> is the first character, a \<open>{\<close> follows it, and
  the text goes to \<open>JSON.parse\<close> uncut.
\<close>

theorem cut_at_start_counterexample:
  "trim ''}{'' = ''}{'' \<and> \<not> endsWith ''}{'' ''}'' \<and>
   ''}{'' = [] @ CHR ''}'' # ''{'' \<and> CHR ''{'' \<in> set ''{'' \<and> CHR ''}'' \<notin> set ''{'' \<and>
   jsonStrOf ''}{'' = ''}{'' \<and> jsonStrOf ''}{'' \<noteq> ''}''"
proof -
  have a: "trim ''}{'' = ''}{'' \<and> \<not> endsWith ''}{'' ''}''" by code_simp
  have b: "jsonStrOf ''}{'' = ''}{'' \<and> jsonStrOf ''}{'' \<noteq> ''}''" by code_simp
  have c: "''}{'' = [] @ CHR ''}'' # ''{'' \<and> CHR ''{'' \<in> set ''{'' \<and> CHR ''}'' \<notin> set ''{''"
    by simp
  from a b c show ?thesis by blast
qed

theorem recovery_of_truncated_text_witness:
  "truncatedText = trim truncatedText \<and> \<not> endsWith truncatedText ''}'' \<and>
   truncatedText = truncatedHead @ CHR ''}'' # truncatedTail \<and>
   CHR ''}'' \<notin> set truncatedTail \<and>
   jsonStrOf truncatedText = truncatedHead @ ''}'' @ '']]}}''"
proof -
  have t: "truncatedText = trim truncatedText" by code_simp
  have e: "\<not> endsWith truncatedText ''}''" by code_simp
  have d: "truncatedText = truncatedHead @ CHR ''}'' # truncatedTail" by code_simp
  have n: "CHR ''}'' \<notin> set truncatedTail" by code_simp
  have h: "truncatedHead \<noteq> [] \<and> CHR ''{'' \<in> set truncatedTail" by code_simp
  have c: "closers truncatedText = '']]}}''" by code_simp
  from recovery_of_truncated_text [OF t e, of "[]" "[]" 0]
  have "jsonStrOf truncatedText =
      (if truncatedHead \<noteq> [] \<and> CHR ''{'' \<in> set truncatedTail then truncatedHead @ ''}''
       else truncatedText) @ closers truncatedText"
    using d n by blast
  then have "jsonStrOf truncatedText = truncatedHead @ ''}'' @ '']]}}''"
    by (simp only: h c if_True simp_thms append_assoc)
  with t e d n show ?thesis by (intro conjI)
qed

section \<open>The single-item parser: its result\<close>

text \<open>
  The list-shaped \<open>categories\<close> field of a parsed value, if it has one: the value is an
  object, the member exists (the last one of that name) and is an array.
\<close>

definition categoriesField :: "json \<Rightarrow> json list option" where
  "categoriesField v =
     (case v of
        JObj members \<Rightarrow>
          (case map_of (rev members) ''categories'' of Some (JArr xs) \<Rightarrow> Some xs | _ \<Rightarrow> None)
      | _ \<Rightarrow> None)"

text \<open>An answer of the single-item form, as in the repository's tests.\<close>

definition singleText :: string where
  \<open>singleText = ''{"categories":["Lang: Python","AI: LLM"]}''\<close>

lemma getProp_categories_None:
  "categoriesField v = None \<Longrightarrow>
     (case getProp v ''categories'' of Inl e \<Rightarrow> True | Inr c \<Rightarrow> \<not> truthy c \<or> \<not> isArray c)"
  by (cases v) (auto simp: categoriesField_def split: option.splits json.splits)

lemma getProp_categories_Some:
  "categoriesField v = Some xs \<Longrightarrow> getProp v ''categories'' = Inr (Some (JArr xs))"
  by (cases v) (auto simp: categoriesField_def split: option.splits json.splits)

lemma trySingle_failure:
  assumes "Option.bind (parse (trim text)) categoriesField = None"
  shows "\<exists>e. trySingle parse text categories n = Inl e"
proof (cases "parse (trim text)")
  case None
  then show ?thesis by (simp add: trySingle_def)
next
  case (Some v)
  with assms have "categoriesField v = None" by simp
  from getProp_categories_None [OF this] Some show ?thesis
    by (auto simp: trySingle_def split: sum.splits)
qed

lemma trySingle_success:
  assumes "Option.bind (parse (trim text)) categoriesField = Some xs"
  shows "trySingle parse text categories n =
     (let v = slice (validNames (validCategoryNames categories) xs) 0 n
      in if v = [] then (case firstName categories of
                           Inl e \<Rightarrow> Inl e
                         | Inr d \<Rightarrow> Inr \<lparr>categoriesOf = [d], reason = []\<rparr>)
         else Inr \<lparr>categoriesOf = v, reason = []\<rparr>)"
proof -
  from assms obtain v where v: "parse (trim text) = Some v" and f: "categoriesField v = Some xs"
    by (cases "parse (trim text)") auto
  show ?thesis
    using v getProp_categories_Some [OF f]
    by (auto simp: trySingle_def Let_def split: sum.splits)
qed

lemma parseClassifier_failure:
  assumes "Option.bind (parse (trim text)) categoriesField = None"
  shows "parseClassifierResponse parse text (c # cs) n =
     Inr \<lparr>categoriesOf = [name c], reason = ''Parsing failed, using default category''\<rparr>"
proof -
  from trySingle_failure [of parse "text", OF assms]
  obtain e where "trySingle parse text (c # cs) n = Inl e"
    by blast
  then show ?thesis by (simp add: parseClassifierResponse_def firstName_def)
qed

lemma parseClassifier_success:
  assumes "Option.bind (parse (trim text)) categoriesField = Some xs"
  shows "parseClassifierResponse parse text (c # cs) n =
     Inr \<lparr>categoriesOf = (let v = slice (validNames (validCategoryNames (c # cs)) xs) 0 n
                           in if v = [] then [name c] else v),
          reason = []\<rparr>"
  by (simp add: parseClassifierResponse_def trySingle_success [of parse "text", OF assms]
      firstName_def Let_def)

text \<open>
  With a catalog that has a first entry \<open>c\<close>, the single-item parser returns a result.
  The result is the name of \<open>c\<close> alone with a non-empty reason exactly when
  \<open>JSON.parse\<close> raised or the parsed value has no list-shaped \<open>categories\<close> field.
  Otherwise the reason is empty and the categories are the catalog names of the field, cut
  by \<open>slice(0, maxCategoriesPerRepo)\<close> (the first \<open>maxCategoriesPerRepo\<close> of them when
  that is not negative), or the name of \<open>c\<close> alone when nothing is left.
\<close>

theorem parseClassifier_result:
  assumes "categories = c # cs"
  shows "\<exists>r. parseClassifierResponse parse text categories maxCategoriesPerRepo = Inr r \<and>
     ((categoriesOf r = [name c] \<and> reason r \<noteq> []) \<longleftrightarrow>
        Option.bind (parse (trim text)) categoriesField = None) \<and>
     (\<forall>xs. Option.bind (parse (trim text)) categoriesField = Some xs \<longrightarrow>
        reason r = [] \<and>
        categoriesOf r =
          (let v = slice (validNames (validCategoryNames categories) xs) 0 maxCategoriesPerRepo
           in if v = [] then [name c] else v) \<and>
        (0 \<le> maxCategoriesPerRepo \<longrightarrow>
           slice (validNames (validCategoryNames categories) xs) 0 maxCategoriesPerRepo =
           take (nat maxCategoriesPerRepo) (validNames (validCategoryNames categories) xs)))"
proof (cases "Option.bind (parse (trim text)) categoriesField")
  case None
  from parseClassifier_failure [of parse "text", OF None, of c cs maxCategoriesPerRepo] None assms
  show ?thesis by simp
next
  case (Some xs)
  from parseClassifier_success [of parse "text", OF Some, of c cs maxCategoriesPerRepo] Some assms
  show ?thesis by (simp add: slice_0_nonneg)
qed

text \<open>
  Claim C4 at an empty catalog: the answer is well formed, and the parser raises, where the
  claim has it return. Nothing is left after the filter, the \<open>try\<close> block reads
  \<open>categories[0].name\<close> and raises, and the \<open>catch\<close> block reads it again. The batch
  parser reads \<open>categories[0]?.name || "Lang: ETC"\<close> in the same place.
\<close>

theorem singleText_empty_catalog:
  "parseClassifierResponse JSON_parse singleText [] 3 = Inl TypeError"
  by code_simp

lemma parse_singleText:
  "Option.bind (JSON_parse (trim singleText)) categoriesField
     = Some [JStr ''Lang: Python'', JStr ''AI: LLM'']"
  by code_simp

theorem parseClassifier_result_witness:
  "mockCategories = hd mockCategories # tl mockCategories \<and> (0::int) \<le> 1 \<and>
   Option.bind (JSON_parse (trim singleText)) categoriesField
     = Some [JStr ''Lang: Python'', JStr ''AI: LLM''] \<and>
   parseClassifierResponse JSON_parse singleText mockCategories 1
     = Inr \<lparr>categoriesOf = [''Lang: Python''], reason = []\<rparr>"
proof -
  have c: "mockCategories = hd mockCategories # tl mockCategories"
    by (simp add: mockCategories_def)
  have v: "validNames (validCategoryNames mockCategories) [JStr ''Lang: Python'', JStr ''AI: LLM'']
      = [''Lang: Python'', ''AI: LLM'']"
    by code_simp
  from parseClassifier_result [OF c, of JSON_parse singleText 1]
  obtain r where r: "parseClassifierResponse JSON_parse singleText mockCategories 1 = Inr r"
    and s: "\<forall>xs. Option.bind (JSON_parse (trim singleText)) categoriesField = Some xs \<longrightarrow>
        reason r = [] \<and>
        categoriesOf r =
          (let v = slice (validNames (validCategoryNames mockCategories) xs) 0 1
           in if v = [] then [name (hd mockCategories)] else v) \<and>
        ((0::int) \<le> 1 \<longrightarrow>
           slice (validNames (validCategoryNames mockCategories) xs) 0 1 =
           take (nat 1) (validNames (validCategoryNames mockCategories) xs))"
    by blast
  have sl: "slice [''Lang: Python'', ''AI: LLM''] 0 1 = [''Lang: Python'']"
    by code_simp
  note s' = s [rule_format, OF parse_singleText, unfolded v sl Let_def]
  then have "reason r = [] \<and> categoriesOf r = [''Lang: Python'']"
    by simp
  then have "r = \<lparr>categoriesOf = [''Lang: Python''], reason = []\<rparr>" by simp
  with r c parse_singleText show ?thesis by simp
qed

section \<open>The empty catalog\<close>

lemma validNames_empty: "validNames {} xs = []"
  using set_validNames [of "{}" xs] by simp

lemma trySingle_empty_catalog: "\<exists>e. trySingle parse text [] n = Inl e"
proof (cases "Option.bind (parse (trim text)) categoriesField")
  case None
  then show ?thesis by (rule trySingle_failure [of parse "text"])
next
  case (Some xs)
  show ?thesis
    by (simp add: validNames_empty trySingle_success [of parse "text", OF Some] validCategoryNames_def
        firstName_def slice_def)
qed

text \<open>
  Claim C10. With an empty catalog the single-item parser raises a \<open>TypeError\<close> for
  every text and every limit, whatever \<open>JSON.parse\<close> does: the \<open>try\<close> block always
  raises (on the success path because the filtered list is empty and the name of the first
  entry is read), and the \<open>catch\<close> block raises on reading the same name. The batch parser
  on an empty catalog gives every requested identifier the literal \<open>Lang: ETC\<close>.
\<close>

theorem empty_catalog_raises:
  "parseClassifierResponse parse text [] maxCategoriesPerRepo = Inl TypeError \<and>
   (\<exists>e. trySingle parse text [] maxCategoriesPerRepo = Inl e) \<and>
   (\<forall>xs. Option.bind (parse (trim text)) categoriesField = Some xs \<longrightarrow>
      trySingle parse text [] maxCategoriesPerRepo = Inl TypeError) \<and>
   (\<forall>repo \<in> set repos.
      resultAt (parseBatchClassifierResponse parse' text' repos [] maxCategoriesPerRepo')
        (KStr (repoId repo)) = Some [''Lang: ETC''])"
proof -
  from trySingle_empty_catalog obtain e where e: "trySingle parse text [] maxCategoriesPerRepo = Inl e"
    by blast
  then have a: "parseClassifierResponse parse text [] maxCategoriesPerRepo = Inl TypeError"
    by (simp add: parseClassifierResponse_def firstName_def)
  have b: "\<forall>xs. Option.bind (parse (trim text)) categoriesField = Some xs \<longrightarrow>
      trySingle parse text [] maxCategoriesPerRepo = Inl TypeError"
  proof (intro allI impI)
    fix xs
    assume s: "Option.bind (parse (trim text)) categoriesField = Some xs"
    show "trySingle parse text [] maxCategoriesPerRepo = Inl TypeError"
      by (simp add: validNames_empty trySingle_success [of parse "text", OF s] validCategoryNames_def
          firstName_def slice_def)
  qed
  have c: "\<forall>repo \<in> set repos.
      resultAt (parseBatchClassifierResponse parse' text' repos [] maxCategoriesPerRepo')
        (KStr (repoId repo)) = Some [''Lang: ETC'']"
  proof
    fix repo
    assume r: "repo \<in> set repos"
    obtain m where m: "parseBatchClassifierResponse parse' text' repos [] maxCategoriesPerRepo' = Inr m"
      by (simp add: parseBatch_cases)
    from parseBatch_covers [OF m r] obtain v where v: "m (KStr (repoId repo)) = Some v"
      by blast
    from parseBatch_stored [OF m v] have "v = [''Lang: ETC'']"
      by (auto simp: stored_def validCategoryNames_def defaultCategory_def)
    with m v show "resultAt (parseBatchClassifierResponse parse' text' repos [] maxCategoriesPerRepo')
        (KStr (repoId repo)) = Some [''Lang: ETC'']"
      by (simp add: resultAt_def)
  qed
  from a e b c show ?thesis by blast
qed

theorem empty_catalog_raises_witness:
  "Option.bind (JSON_parse (trim singleText)) categoriesField
     = Some [JStr ''Lang: Python'', JStr ''AI: LLM''] \<and>
   trySingle JSON_parse singleText [] 3 = Inl TypeError \<and>
   parseClassifierResponse JSON_parse singleText [] 3 = Inl TypeError \<and>
   mockRepo ''owner/repo1'' \<in> set [mockRepo ''owner/repo1''] \<and>
   resultAt (parseBatchClassifierResponse JSON_parse oneResultText [mockRepo ''owner/repo1''] [] 3)
     (KStr ''owner/repo1'') = Some [''Lang: ETC'']"
  using empty_catalog_raises [of JSON_parse singleText 3 "[mockRepo ''owner/repo1'']"
      JSON_parse oneResultText 3] parse_singleText
  by (simp add: mockRepo_def)

section \<open>The batch parser: entries outside the request\<close>

lemma processResult_keeps:
  "processResult valid dflt n i r m = Inr m' \<Longrightarrow> m k \<noteq> None \<Longrightarrow> m' k \<noteq> None"
  by (drule processResult_cases) auto

lemma processResults_keeps:
  "processResults valid dflt n i rs m = (err, m') \<Longrightarrow> m k \<noteq> None \<Longrightarrow> m' k \<noteq> None"
proof (induction rs arbitrary: i m)
  case Nil
  then show ?case by simp
next
  case (Cons r rs)
  show ?case
  proof (cases "processResult valid dflt n i r m")
    case (Inl e)
    with Cons.prems show ?thesis by simp
  next
    case (Inr m1)
    with Cons.prems(1) have "processResults valid dflt n (Suc i) rs m1 = (err, m')" by simp
    from Cons.IH [OF this processResult_keeps [OF Inr Cons.prems(2)]] show ?thesis .
  qed
qed

lemma processResults_contributes:
  assumes "processResults valid dflt n i rs m = (None, m')"
    and "j < length rs"
    and "getProp (rs ! j) ''id'' = Inr ident" and "truthy ident"
    and "getProp (rs ! j) ''categories'' = Inr cats" and "isArray cats"
  shows "m' (keyOf (i + j) ident) \<noteq> None"
  using assms
proof (induction rs arbitrary: i j m)
  case Nil
  then show ?case by simp
next
  case (Cons r rs)
  from Cons.prems(1) obtain m1 where m1: "processResult valid dflt n i r m = Inr m1"
    and rest: "processResults valid dflt n (Suc i) rs m1 = (None, m')"
    by (cases "processResult valid dflt n i r m") auto
  show ?case
  proof (cases j)
    case 0
    with Cons.prems m1 have "m1 = m(keyOf i ident \<mapsto> entryFor valid dflt n cats)"
      by (simp add: processResult_eq)
    then have "m1 (keyOf i ident) \<noteq> None" by simp
    from processResults_keeps [OF rest this] 0 show ?thesis by simp
  next
    case (Suc j')
    from Cons.IH [OF rest, of j'] Cons.prems Suc show ?thesis by simp
  qed
qed

text \<open>
  Claim C9. When the \<open>try\<close> block did not raise, every entry of \<open>results\<close> whose
  \<open>id\<close> is truthy and whose \<open>categories\<close> is an array has its key in the returned map,
  whether or not the identifier was requested.
\<close>

theorem parsed_entries_contribute:
  assumes "fst (tryBatch parse text repos categories maxCategoriesPerRepo) = None"
    and "parse (jsonStrOf text) = Some parsed"
    and "getProp parsed ''results'' = Inr (Some (JArr results))"
    and "i < length results"
    and "getProp (results ! i) ''id'' = Inr ident" and "truthy ident"
    and "getProp (results ! i) ''categories'' = Inr (Some (JArr cats))"
  shows "\<exists>m v. parseBatchClassifierResponse parse text repos categories maxCategoriesPerRepo = Inr m \<and>
           m (keyOf i ident) = Some v"
proof -
  let ?valid = "validCategoryNames categories" and ?d = "defaultCategory categories"
  obtain err m1 where p: "processResults ?valid ?d maxCategoriesPerRepo 0 results Map.empty = (err, m1)"
    by (cases "processResults ?valid ?d maxCategoriesPerRepo 0 results Map.empty")
  from assms(1,2,3) p have err: "err = None"
    by (cases err) (simp_all add: tryBatch_def)
  have t: "tryBatch parse text repos categories maxCategoriesPerRepo = (None, fillDefaults repos ?d m1)"
    using assms(2,3) p err by (simp add: tryBatch_def)
  then have r: "parseBatchClassifierResponse parse text repos categories maxCategoriesPerRepo
      = Inr (fillDefaults repos ?d m1)"
    by (simp add: parseBatchClassifierResponse_def)
  have "isArray (Some (JArr cats))" by simp
  from processResults_contributes [OF p [unfolded err] assms(4,5,6,7) this]
  have "m1 (keyOf i ident) \<noteq> None" by simp
  then have "fillDefaults repos ?d m1 (keyOf i ident) \<noteq> None"
    by (auto simp: fillDefaults_lookup split: option.splits)
  with r show ?thesis by auto
qed

lemma tryBatch_oneResultText:
  "fst (tryBatch JSON_parse oneResultText [mockRepo ''owner/repo2''] mockCategories 3) = None"
  by code_simp

theorem parsed_entries_contribute_witness:
  "fst (tryBatch JSON_parse oneResultText [mockRepo ''owner/repo2''] mockCategories 3) = None \<and>
   ''owner/repo1'' \<notin> repoId ` set [mockRepo ''owner/repo2''] \<and>
   (\<exists>v. resultAt (parseBatchClassifierResponse JSON_parse oneResultText [mockRepo ''owner/repo2'']
                    mockCategories 3) (KStr ''owner/repo1'') = Some v)"
proof -
  let ?entry = "JObj [(''id'', JStr ''owner/repo1''), (''categories'', JArr [JStr ''AI: LLM''])]"
  have p: "JSON_parse (jsonStrOf oneResultText) = Some (JObj [(''results'', JArr [?entry])])"
    by (simp add: jsonStrOf_oneResultText parse_oneResultText)
  have g: "getProp (JObj [(''results'', JArr [?entry])]) ''results'' = Inr (Some (JArr [?entry]))"
    by simp
  have i: "(0::nat) < length [?entry]" by simp
  have a: "getProp ([?entry] ! 0) ''id'' = Inr (Some (JStr ''owner/repo1''))" by simp
  have b: "truthy (Some (JStr ''owner/repo1''))" by simp
  have c: "getProp ([?entry] ! 0) ''categories'' = Inr (Some (JArr [JStr ''AI: LLM'']))" by simp
  from parsed_entries_contribute [OF tryBatch_oneResultText p g i a b c]
  have "\<exists>v. resultAt (parseBatchClassifierResponse JSON_parse oneResultText
        [mockRepo ''owner/repo2''] mockCategories 3) (KStr ''owner/repo1'') = Some v"
    by (auto simp: resultAt_def)
  with tryBatch_oneResultText show ?thesis by (simp add: mockRepo_def)
qed

section \<open>Retry with backoff\<close>

text \<open>
  Modelled from the spec: \<open>retryWithBackoff\<close> of \<open>src/utils/rate-limiter.ts\<close>, which is
  not among the sources (its tests and its callers are). The spec: attempt 1 runs
  immediately; on failure, if the attempts so far are fewer than \<open>maxRetries + 1\<close>, wait
  the backoff delay and retry; on success return that result at once; when all
  \<open>maxRetries + 1\<close> attempts fail, propagate the last error unchanged. The delay before
  the \<open>k\<close>-th retry is \<open>min(initialDelayMs * 2^(k-1), maxDelayMs)\<close>.
\<close>

record RetryPolicy =
  maxRetries :: nat
  initialDelayMs :: int
  maxDelayMs :: int

text \<open>The defaults of the spec: 3, 1000, 10000.\<close>

definition defaultPolicy :: RetryPolicy where
  "defaultPolicy = \<lparr>maxRetries = 3, initialDelayMs = 1000, maxDelayMs = 10000\<rparr>"

text \<open>
  The operation is a computation on a state of its own: it returns \<open>Inl\<close> an error or
  \<open>Inr\<close> a value. A run records the outcome, the state, the number of times the operation
  was invoked and the delays that were waited, in order.
\<close>

record ('e, 'a, 's) RetryRun =
  outcome :: "'e + 'a"
  final :: 's
  attempts :: nat
  waited :: "int list"

text \<open>
  Modelled from the spec: the delay before the \<open>k\<close>-th retry of \<open>retryWithBackoff\<close>
  (absent from the sources), \<open>min(initialDelayMs * 2^(k-1), maxDelayMs)\<close>.
\<close>

definition backoffDelay :: "RetryPolicy \<Rightarrow> nat \<Rightarrow> int" where
  "backoffDelay policy k = min (initialDelayMs policy * 2 ^ (k - 1)) (maxDelayMs policy)"

text \<open>
  Modelled from the spec: the loop of \<open>retryWithBackoff\<close> (absent from the sources), from
  the attempt number \<open>attempt\<close>, counted from 1, with the delays waited so far.
\<close>

function retryFrom ::
  "('s \<Rightarrow> ('e + 'a) \<times> 's) \<Rightarrow> RetryPolicy \<Rightarrow> nat \<Rightarrow> 's \<Rightarrow> int list \<Rightarrow> ('e, 'a, 's) RetryRun" where
  "retryFrom operation policy attempt s delays =
     (case operation s of
        (Inr v, s') \<Rightarrow> \<lparr>outcome = Inr v, final = s', attempts = attempt, waited = delays\<rparr>
      | (Inl e, s') \<Rightarrow>
          if attempt < maxRetries policy + 1
          then retryFrom operation policy (attempt + 1) s' (delays @ [backoffDelay policy attempt])
          else \<lparr>outcome = Inl e, final = s', attempts = attempt, waited = delays\<rparr>)"
  by pat_completeness auto
termination
  by (relation "measure (\<lambda>(operation, policy, attempt, s, delays). maxRetries policy + 1 - attempt)")
    auto

declare retryFrom.simps [simp del]

text \<open>
  Modelled from the spec: \<open>retryWithBackoff\<close> (absent from the sources): attempt 1 runs
  immediately, with no delay before it.
\<close>

definition retryWithBackoff ::
  "('s \<Rightarrow> ('e + 'a) \<times> 's) \<Rightarrow> RetryPolicy \<Rightarrow> 's \<Rightarrow> ('e, 'a, 's) RetryRun" where
  "retryWithBackoff operation policy s = retryFrom operation policy 1 s []"

text \<open>The state before the invocation number \<open>k + 1\<close>, when the \<open>k\<close> before it failed.\<close>

fun stateAfter :: "('s \<Rightarrow> ('e + 'a) \<times> 's) \<Rightarrow> nat \<Rightarrow> 's \<Rightarrow> 's" where
  "stateAfter operation 0 s = s"
| "stateAfter operation (Suc k) s = stateAfter operation k (snd (operation s))"

lemma operation_fails:
  "isl (fst (operation s)) \<Longrightarrow> \<exists>e s'. operation s = (Inl e, s')"
  by (cases "operation s") (auto simp: isl_def)

lemma operation_succeeds:
  "\<not> isl (fst (operation s)) \<Longrightarrow> \<exists>v s'. operation s = (Inr v, s')"
  by (cases "operation s"; cases "fst (operation s)") auto

lemma retryFrom_all_fail:
  assumes "attempt + n = maxRetries policy + 1"
    and "\<forall>j \<le> n. isl (fst (operation (stateAfter operation j s)))"
  shows "retryFrom operation policy attempt s delays =
     \<lparr>outcome = fst (operation (stateAfter operation n s)),
      final = stateAfter operation (Suc n) s,
      attempts = attempt + n,
      waited = delays @ map (backoffDelay policy) [attempt ..< attempt + n]\<rparr>"
  using assms
proof (induction n arbitrary: attempt s delays)
  case 0
  from operation_fails [of operation s] "0.prems"(2)
  obtain e s' where op: "operation s = (Inl e, s')" by auto
  from "0.prems"(1) have "\<not> attempt < maxRetries policy + 1" by simp
  then show ?case
    by (subst retryFrom.simps) (simp add: op)
next
  case (Suc n)
  from operation_fails [of operation s] Suc.prems(2) [rule_format, of 0]
  obtain e s' where op: "operation s = (Inl e, s')" by auto
  have lt: "attempt < maxRetries policy + 1" using Suc.prems(1) by simp
  have a: "attempt + 1 + n = maxRetries policy + 1" using Suc.prems(1) by simp
  have b: "\<forall>j \<le> n. isl (fst (operation (stateAfter operation j s')))"
  proof (intro allI impI)
    fix j
    assume "j \<le> n"
    with Suc.prems(2) [rule_format, of "Suc j"] show "isl (fst (operation (stateAfter operation j s')))"
      by (simp add: op)
  qed
  have u: "[attempt ..< attempt + Suc n] = attempt # [attempt + 1 ..< attempt + 1 + n]"
    by (simp add: upt_conv_Cons del: upt_Suc)
  have r: "retryFrom operation policy attempt s delays =
      retryFrom operation policy (attempt + 1) s' (delays @ [backoffDelay policy attempt])"
    using lt by (subst retryFrom.simps) (simp add: op)
  show ?case
    unfolding r Suc.IH [OF a b] u by (simp add: op)
qed

lemma retryFrom_first_success:
  assumes "attempt + k \<le> maxRetries policy + 1"
    and "\<forall>j < k. isl (fst (operation (stateAfter operation j s)))"
    and "\<not> isl (fst (operation (stateAfter operation k s)))"
  shows "retryFrom operation policy attempt s delays =
     \<lparr>outcome = fst (operation (stateAfter operation k s)),
      final = stateAfter operation (Suc k) s,
      attempts = attempt + k,
      waited = delays @ map (backoffDelay policy) [attempt ..< attempt + k]\<rparr>"
  using assms
proof (induction k arbitrary: attempt s delays)
  case 0
  from operation_succeeds [of operation s] "0.prems"(3)
  obtain v s' where op: "operation s = (Inr v, s')" by auto
  show ?case
    by (subst retryFrom.simps) (simp add: op)
next
  case (Suc k)
  from operation_fails [of operation s] Suc.prems(2) [rule_format, of 0]
  obtain e s' where op: "operation s = (Inl e, s')" by auto
  have lt: "attempt < maxRetries policy + 1" using Suc.prems(1) by simp
  have a: "attempt + 1 + k \<le> maxRetries policy + 1" using Suc.prems(1) by simp
  have b: "\<forall>j < k. isl (fst (operation (stateAfter operation j s')))"
  proof (intro allI impI)
    fix j
    assume "j < k"
    with Suc.prems(2) [rule_format, of "Suc j"] show "isl (fst (operation (stateAfter operation j s')))"
      by (simp add: op)
  qed
  have c: "\<not> isl (fst (operation (stateAfter operation k s')))"
    using Suc.prems(3) by (simp add: op)
  have u: "[attempt ..< attempt + Suc k] = attempt # [attempt + 1 ..< attempt + 1 + k]"
    by (simp add: upt_conv_Cons del: upt_Suc)
  have r: "retryFrom operation policy attempt s delays =
      retryFrom operation policy (attempt + 1) s' (delays @ [backoffDelay policy attempt])"
    using lt by (subst retryFrom.simps) (simp add: op)
  show ?case
    unfolding r Suc.IH [OF a b c] u by (simp add: op)
qed


lemma retryFrom_waited:
  "attempt \<le> attempts (retryFrom operation policy attempt s delays) \<and>
   waited (retryFrom operation policy attempt s delays) =
     delays @ map (backoffDelay policy)
       [attempt ..< attempts (retryFrom operation policy attempt s delays)]"
proof (induction operation policy attempt s delays rule: retryFrom.induct)
  case (1 operation policy attempt s delays)
  obtain x s' where op: "operation s = (x, s')" by (cases "operation s")
  show ?case
  proof (cases x)
    case (Inr v)
    show ?thesis by (subst (1 2 3) retryFrom.simps) (simp add: op Inr)
  next
    case (Inl e)
    show ?thesis
    proof (cases "attempt < maxRetries policy + 1")
      case False
      then show ?thesis by (subst (1 2 3) retryFrom.simps) (simp add: op Inl)
    next
      case True
      let ?r = "retryFrom operation policy (attempt + 1) s' (delays @ [backoffDelay policy attempt])"
      have r: "retryFrom operation policy attempt s delays = ?r"
        using True by (subst retryFrom.simps) (simp add: op Inl)
      from "1.IH" [OF op [symmetric] Inl True]
      have le: "attempt + 1 \<le> attempts ?r"
        and w: "waited ?r = (delays @ [backoffDelay policy attempt]) @
                  map (backoffDelay policy) [attempt + 1 ..< attempts ?r]"
        by simp_all
      from le have u: "[attempt ..< attempts ?r] = attempt # [attempt + 1 ..< attempts ?r]"
        by (simp add: upt_conv_Cons)
      show ?thesis
        unfolding r using le w u by simp
    qed
  qed
qed

lemma backoffDelay_mono:
  assumes "0 \<le> initialDelayMs policy" and "j \<le> k"
  shows "backoffDelay policy j \<le> backoffDelay policy k"
proof -
  have "(2::int) ^ (j - 1) \<le> 2 ^ (k - 1)"
    using assms(2) by (intro power_increasing) auto
  then have "initialDelayMs policy * 2 ^ (j - 1) \<le> initialDelayMs policy * 2 ^ (k - 1)"
    using assms(1) by (rule mult_left_mono)
  then show ?thesis by (simp add: backoffDelay_def min_le_iff_disj)
qed

lemma sorted_backoff:
  assumes "0 \<le> initialDelayMs policy"
  shows "sorted (map (backoffDelay policy) [a ..< b])"
proof -
  have "sorted_wrt (\<lambda>j k. backoffDelay policy j \<le> backoffDelay policy k) [a ..< b]"
    by (rule sorted_wrt_mono_rel [of _ "(\<le>)"]) (auto intro: backoffDelay_mono [OF assms])
  then show ?thesis by (simp add: sorted_map)
qed

text \<open>
  Claim C5. Whatever the operation and the policy: when the operation fails on each of
  the attempts 1 to \<open>maxRetries + 1\<close>, it is invoked \<open>maxRetries + 1\<close> times and the outcome
  is the error of the last attempt, as the operation gave it; when it first succeeds at
  attempt \<open>k + 1\<close>, the outcome is that result, the operation was invoked \<open>k + 1\<close> times
  and the state is the one that attempt left.
\<close>

theorem retryWithBackoff_attempts:
  "((\<forall>j \<le> maxRetries policy. isl (fst (operation (stateAfter operation j s)))) \<longrightarrow>
      attempts (retryWithBackoff operation policy s) = maxRetries policy + 1 \<and>
      outcome (retryWithBackoff operation policy s)
        = fst (operation (stateAfter operation (maxRetries policy) s)) \<and>
      isl (outcome (retryWithBackoff operation policy s))) \<and>
   (\<forall>k \<le> maxRetries policy.
      (\<forall>j < k. isl (fst (operation (stateAfter operation j s)))) \<and>
      \<not> isl (fst (operation (stateAfter operation k s))) \<longrightarrow>
      attempts (retryWithBackoff operation policy s) = k + 1 \<and>
      outcome (retryWithBackoff operation policy s) = fst (operation (stateAfter operation k s)) \<and>
      final (retryWithBackoff operation policy s) = stateAfter operation (Suc k) s)"
proof (intro conjI allI impI)
  assume f: "\<forall>j \<le> maxRetries policy. isl (fst (operation (stateAfter operation j s)))"
  have a: "1 + maxRetries policy = maxRetries policy + 1" by simp
  note r = retryFrom_all_fail [OF a f, of "[]", folded retryWithBackoff_def]
  show "attempts (retryWithBackoff operation policy s) = maxRetries policy + 1"
    unfolding r by simp
  show "outcome (retryWithBackoff operation policy s)
        = fst (operation (stateAfter operation (maxRetries policy) s))"
    unfolding r by simp
  show "isl (outcome (retryWithBackoff operation policy s))"
    unfolding r using f by simp
next
  fix k
  assume k: "k \<le> maxRetries policy"
    and h: "(\<forall>j < k. isl (fst (operation (stateAfter operation j s)))) \<and>
      \<not> isl (fst (operation (stateAfter operation k s)))"
  from k have a: "1 + k \<le> maxRetries policy + 1" by simp
  from h have b: "\<forall>j < k. isl (fst (operation (stateAfter operation j s)))"
    and c: "\<not> isl (fst (operation (stateAfter operation k s)))" by simp_all
  note r = retryFrom_first_success [OF a b c, of "[]", folded retryWithBackoff_def]
  show "attempts (retryWithBackoff operation policy s) = k + 1"
    unfolding r by simp
  show "outcome (retryWithBackoff operation policy s) = fst (operation (stateAfter operation k s))"
    unfolding r by simp
  show "final (retryWithBackoff operation policy s) = stateAfter operation (Suc k) s"
    unfolding r by simp
qed

text \<open>
  Claim C6. In every run, the delay waited before the \<open>k\<close>-th retry is
  \<open>min(initialDelayMs * 2^(k-1), maxDelayMs)\<close>, there is one delay for each attempt but the
  last, no delay exceeds \<open>maxDelayMs\<close>, and with \<open>initialDelayMs\<close> not negative the delays
  never decrease.
\<close>

theorem backoff_delays:
  assumes "0 \<le> initialDelayMs policy"
  shows "waited (retryWithBackoff operation policy s) =
           map (\<lambda>k. min (initialDelayMs policy * 2 ^ (k - 1)) (maxDelayMs policy))
             [1 ..< attempts (retryWithBackoff operation policy s)] \<and>
         sorted (waited (retryWithBackoff operation policy s)) \<and>
         (\<forall>d \<in> set (waited (retryWithBackoff operation policy s)). d \<le> maxDelayMs policy)"
proof -
  let ?r = "retryWithBackoff operation policy s"
  have w: "waited ?r = map (backoffDelay policy) [1 ..< attempts ?r]"
    using retryFrom_waited [of 1 operation policy s "[]"] by (simp add: retryWithBackoff_def)
  have "map (backoffDelay policy) [1 ..< attempts ?r] =
          map (\<lambda>k. min (initialDelayMs policy * 2 ^ (k - 1)) (maxDelayMs policy)) [1 ..< attempts ?r]"
    by (simp add: backoffDelay_def)
  with w have a: "waited ?r =
      map (\<lambda>k. min (initialDelayMs policy * 2 ^ (k - 1)) (maxDelayMs policy)) [1 ..< attempts ?r]"
    by simp
  have b: "sorted (waited ?r)"
    unfolding w by (rule sorted_backoff [OF assms])
  have c: "\<forall>d \<in> set (waited ?r). d \<le> maxDelayMs policy"
    unfolding w by (auto simp: backoffDelay_def)
  from a b c show ?thesis by (intro conjI)
qed


text \<open>The operations of the repository's tests: the state counts the invocations.\<close>

definition alwaysFails :: "nat \<Rightarrow> (string + string) \<times> nat" where
  "alwaysFails n = (Inl ''Persistent failure'', n + 1)"

definition failsTwice :: "nat \<Rightarrow> (string + string) \<times> nat" where
  "failsTwice n = (if n + 1 < 3 then Inl ''Temporary failure'' else Inr ''success'', n + 1)"

lemma stateAfter_alwaysFails: "stateAfter alwaysFails j n = n + j"
  by (induction j arbitrary: n) (simp_all add: alwaysFails_def)

lemma stateAfter_failsTwice: "stateAfter failsTwice j n = n + j"
  by (induction j arbitrary: n) (simp_all add: failsTwice_def)

theorem retryWithBackoff_attempts_witness:
  "attempts (retryWithBackoff alwaysFails \<lparr>maxRetries = 2, initialDelayMs = 10, maxDelayMs = 10000\<rparr> 0) = 3 \<and>
   outcome (retryWithBackoff alwaysFails \<lparr>maxRetries = 2, initialDelayMs = 10, maxDelayMs = 10000\<rparr> 0)
     = Inl ''Persistent failure'' \<and>
   attempts (retryWithBackoff failsTwice \<lparr>maxRetries = 3, initialDelayMs = 10, maxDelayMs = 50\<rparr> 0) = 3 \<and>
   outcome (retryWithBackoff failsTwice \<lparr>maxRetries = 3, initialDelayMs = 10, maxDelayMs = 50\<rparr> 0)
     = Inr ''success'' \<and>
   final (retryWithBackoff failsTwice \<lparr>maxRetries = 3, initialDelayMs = 10, maxDelayMs = 50\<rparr> 0) = 3"
proof -
  let ?p = "\<lparr>maxRetries = 2, initialDelayMs = 10, maxDelayMs = 10000\<rparr>"
  let ?q = "\<lparr>maxRetries = 3, initialDelayMs = 10, maxDelayMs = 50\<rparr>"
  have f: "\<forall>j \<le> maxRetries ?p. isl (fst (alwaysFails (stateAfter alwaysFails j 0)))"
    by (simp add: alwaysFails_def)
  from retryWithBackoff_attempts [of ?p alwaysFails 0] f
  have a: "attempts (retryWithBackoff alwaysFails ?p 0) = 3 \<and>
           outcome (retryWithBackoff alwaysFails ?p 0) = Inl ''Persistent failure''"
    by (simp add: stateAfter_alwaysFails alwaysFails_def)
  have g: "(2::nat) \<le> maxRetries ?q \<and>
      (\<forall>j < 2. isl (fst (failsTwice (stateAfter failsTwice j 0)))) \<and>
      \<not> isl (fst (failsTwice (stateAfter failsTwice 2 0)))"
    by (simp add: stateAfter_failsTwice failsTwice_def)
  from retryWithBackoff_attempts [of ?q failsTwice 0] g
  have b: "attempts (retryWithBackoff failsTwice ?q 0) = 2 + 1 \<and>
      outcome (retryWithBackoff failsTwice ?q 0) = fst (failsTwice (stateAfter failsTwice 2 0)) \<and>
      final (retryWithBackoff failsTwice ?q 0) = stateAfter failsTwice (Suc 2) 0"
    by blast
  then have "attempts (retryWithBackoff failsTwice ?q 0) = 3 \<and>
      outcome (retryWithBackoff failsTwice ?q 0) = Inr ''success'' \<and>
      final (retryWithBackoff failsTwice ?q 0) = 3"
    by (simp add: stateAfter_failsTwice failsTwice_def)
  with a show ?thesis by simp
qed

lemma attempts_alwaysFails:
  "attempts (retryWithBackoff alwaysFails \<lparr>maxRetries = 2, initialDelayMs = 20, maxDelayMs = 100\<rparr> 0) = 3"
  by code_simp

theorem backoff_delays_witness:
  "(0::int) \<le> 20 \<and>
   waited (retryWithBackoff alwaysFails \<lparr>maxRetries = 2, initialDelayMs = 20, maxDelayMs = 100\<rparr> 0)
     = [20, 40] \<and>
   sorted (waited (retryWithBackoff alwaysFails
     \<lparr>maxRetries = 2, initialDelayMs = 20, maxDelayMs = 100\<rparr> 0))"
proof -
  let ?p = "\<lparr>maxRetries = 2, initialDelayMs = 20, maxDelayMs = 100\<rparr>"
  have h: "0 \<le> initialDelayMs ?p" by simp
  have u: "[1 ..< 3] = [1, 2::nat]" by (simp add: upt_conv_Cons)
  from backoff_delays [OF h, of alwaysFails 0]
  have "waited (retryWithBackoff alwaysFails ?p 0) = [20, 40] \<and>
        sorted (waited (retryWithBackoff alwaysFails ?p 0))"
    unfolding attempts_alwaysFails u by simp
  then show ?thesis by simp
qed

section \<open>Bounded concurrency\<close>

text \<open>
  Modelled from the spec: \<open>runWithConcurrency\<close> of \<open>src/utils/rate-limiter.ts\<close>, which is
  not among the sources (its tests and one caller are). The spec: at most \<open>limit\<close> items
  are with the worker at a time; when a call finishes, the next queued item is admitted,
  whatever the order of finishing; the result has the order of the input; the empty input
  gives the empty result without a call of the worker; the first failure of a worker fails
  the whole call.

  The pool holds the items not yet admitted and the calls in flight, each with its position
  in the input, the result slots, and the invocations of the worker in order. The order of
  finishing is a parameter: at step \<open>t\<close> the call at position \<open>order t\<close> (modulo their
  number) among those in flight finishes. \<open>None\<close> stands for a call that never returns.
\<close>

record ('a, 'b) Pool =
  queued :: "(nat \<times> 'a) list"
  inFlight :: "(nat \<times> 'a) list"
  results :: "'b option list"
  invoked :: "'a list"






















section \<open>Classification in batches\<close>

text \<open>
  \<open>classifyAndAddRepos\<close> of \<open>src/services/classifier.ts\<close>. Its collaborators work on the
  network, so each takes the state of the world and returns the new one:
  \<open>fetchReadmesForBatch\<close> can raise (reading a README raises for a repository without
  owner or name), \<open>classifyBatch\<close> returns \<open>null\<close> (here \<open>None\<close>) when the classification
  raised, and \<open>addReposToLists\<close> returns one result for each repository. The loop state
  holds the two counters, the delays waited so far, and the world.
\<close>

record ClassifyResult =
  resultRepoId :: string
  succeeded :: bool
  resultCategories :: "string list option"
  resultError :: "string option"

record ('repo, 'info, 'res, 'x, 'w) Services =
  fetchReadmesForBatch :: "'repo list \<Rightarrow> 'w \<Rightarrow> ('x + 'info list) \<times> 'w"
  classifyBatch :: "'info list \<Rightarrow> 'w \<Rightarrow> 'res option \<times> 'w"
  addReposToLists :: "'repo list \<Rightarrow> 'res \<Rightarrow> 'w \<Rightarrow> ClassifyResult list \<times> 'w"

record 'w LoopState =
  success :: nat
  failed :: nat
  delays :: "int list"
  world :: 'w

text \<open>\<open>Math.ceil(n / batchSize)\<close> for a batch size above 0.\<close>

definition ceilDiv :: "nat \<Rightarrow> nat \<Rightarrow> nat" where
  "ceilDiv n b = (n + b - 1) div b"

text \<open>The counting loop over \<open>addResults\<close>.\<close>

fun countResults :: "ClassifyResult list \<Rightarrow> 'w LoopState \<Rightarrow> 'w LoopState" where
  "countResults [] st = st"
| "countResults (r # rs) st =
     countResults rs (if succeeded r then st\<lparr>success := success st + 1\<rparr>
                      else st\<lparr>failed := failed st + 1\<rparr>)"

text \<open>
  The body of the \<open>for\<close> loop for the batch \<open>batchIdx\<close>. \<open>Inl\<close> is the error of
  \<open>fetchReadmesForBatch\<close>, which nothing catches. When the classification returned
  \<open>null\<close> the body ends at \<open>continue\<close>, before the delay.
\<close>

definition batchBody ::
  "('repo, 'info, 'res, 'x, 'w) Services \<Rightarrow> nat \<Rightarrow> int \<Rightarrow> 'repo list \<Rightarrow> nat \<Rightarrow> nat \<Rightarrow> 'w LoopState
     \<Rightarrow> 'x + 'w LoopState" where
  "batchBody svc batchSize batchDelay repos totalBatches batchIdx st =
     (let batchStart = batchIdx * batchSize;
          batchEnd = min (batchStart + batchSize) (length repos);
          batchRepos = slice repos (int batchStart) (int batchEnd)
      in case fetchReadmesForBatch svc batchRepos (world st) of
           (Inl e, w1) \<Rightarrow> Inl e
         | (Inr batchRepoInfos, w1) \<Rightarrow>
             (case classifyBatch svc batchRepoInfos w1 of
                (None, w2) \<Rightarrow> Inr (st\<lparr>failed := failed st + length batchRepos, world := w2\<rparr>)
              | (Some res, w2) \<Rightarrow>
                  (case addReposToLists svc batchRepos res w2 of
                     (addResults, w3) \<Rightarrow>
                       (let st1 = countResults addResults (st\<lparr>world := w3\<rparr>)
                        in Inr (if int batchIdx < int totalBatches - 1
                                then st1\<lparr>delays := delays st1 @ [batchDelay]\<rparr> else st1)))))"

function batchLoop ::
  "('repo, 'info, 'res, 'x, 'w) Services \<Rightarrow> nat \<Rightarrow> int \<Rightarrow> 'repo list \<Rightarrow> nat \<Rightarrow> nat \<Rightarrow> 'w LoopState
     \<Rightarrow> 'x + 'w LoopState" where
  "batchLoop svc batchSize batchDelay repos totalBatches batchIdx st =
     (if batchIdx < totalBatches then
        (case batchBody svc batchSize batchDelay repos totalBatches batchIdx st of
           Inl e \<Rightarrow> Inl e
         | Inr st' \<Rightarrow> batchLoop svc batchSize batchDelay repos totalBatches (batchIdx + 1) st')
      else Inr st)"
  by pat_completeness auto
termination
  by (relation "measure (\<lambda>(svc, batchSize, batchDelay, repos, totalBatches, batchIdx, st).
        totalBatches - batchIdx)") auto

declare batchLoop.simps [simp del]

text \<open>
  The function. With a batch size of 0 and repositories to classify the number of batches
  is infinite and the call never returns (\<open>None\<close>); without repositories there is no batch.
\<close>

definition classifyAndAddRepos ::
  "('repo, 'info, 'res, 'x, 'w) Services \<Rightarrow> nat \<Rightarrow> int \<Rightarrow> 'repo list \<Rightarrow> 'w
     \<Rightarrow> ('x + 'w LoopState) option" where
  "classifyAndAddRepos svc batchSize batchDelay repos w =
     (if batchSize = 0 then
        (if repos = [] then Some (Inr \<lparr>success = 0, failed = 0, delays = [], world = w\<rparr>)
         else None)
      else Some (batchLoop svc batchSize batchDelay repos (ceilDiv (length repos) batchSize) 0
                   \<lparr>success = 0, failed = 0, delays = [], world = w\<rparr>))"


lemma countResults_delays: "delays (countResults rs st) = delays st"
  by (induction rs arbitrary: st) simp_all

lemma batchBody_delays:
  assumes "batchBody svc batchSize batchDelay repos totalBatches batchIdx st = Inr st'"
  shows "delays st' = delays st \<or>
         (batchIdx + 1 < totalBatches \<and> delays st' = delays st @ [batchDelay])"
  using assms
  by (auto simp: batchBody_def Let_def countResults_delays split: prod.splits sum.splits
      option.splits if_splits)

lemma batchBody_all_succeed:
  assumes "\<forall>rs w. \<exists>infos. fst (fetchReadmesForBatch svc rs w) = Inr infos"
    and "\<forall>infos w. fst (classifyBatch svc infos w) \<noteq> None"
  shows "\<exists>st'. batchBody svc batchSize batchDelay repos totalBatches batchIdx st = Inr st' \<and>
           delays st' = delays st @ (if batchIdx + 1 < totalBatches then [batchDelay] else [])"
proof -
  define batchRepos where "batchRepos =
    slice repos (int (batchIdx * batchSize))
      (int (min (batchIdx * batchSize + batchSize) (length repos)))"
  obtain f w1 where f: "fetchReadmesForBatch svc batchRepos (world st) = (f, w1)"
    by (cases "fetchReadmesForBatch svc batchRepos (world st)")
  with assms(1) [rule_format, of batchRepos "world st"]
  obtain infos where infos: "f = Inr infos" by auto
  obtain c w2 where c: "classifyBatch svc infos w1 = (c, w2)"
    by (cases "classifyBatch svc infos w1")
  with assms(2) [rule_format, of infos w1] obtain res where res: "c = Some res" by auto
  obtain addResults w3 where a: "addReposToLists svc batchRepos res w2 = (addResults, w3)"
    by (cases "addReposToLists svc batchRepos res w2")
  show ?thesis
    unfolding batchBody_def Let_def batchRepos_def [symmetric]
    by (auto simp: f infos c res a countResults_delays)
qed

text \<open>
  The delay is waited only between batches: from batch \<open>batchIdx\<close> on, at most one delay
  for every batch but the last.
\<close>

lemma batchLoop_delays_bound:
  assumes "batchLoop svc batchSize batchDelay repos totalBatches batchIdx st = Inr st'"
  shows "length (delays st') \<le> length (delays st) + (totalBatches - 1 - batchIdx)"
  using assms
proof (induction svc batchSize batchDelay repos totalBatches batchIdx st rule: batchLoop.induct)
  case (1 svc batchSize batchDelay repos totalBatches batchIdx st)
  show ?case
  proof (cases "batchIdx < totalBatches")
    case False
    with "1.prems" show ?thesis by (subst (asm) batchLoop.simps) simp
  next
    case True
    from "1.prems" True obtain st1
      where b: "batchBody svc batchSize batchDelay repos totalBatches batchIdx st = Inr st1"
        and r: "batchLoop svc batchSize batchDelay repos totalBatches (batchIdx + 1) st1 = Inr st'"
      by (subst (asm) batchLoop.simps) (auto split: sum.splits)
    from "1.IH" [OF True b r]
    have "length (delays st') \<le> length (delays st1) + (totalBatches - 1 - (batchIdx + 1))" .
    with batchBody_delays [OF b] show ?thesis by auto
  qed
qed

text \<open>
  When no batch fails (the READMEs are fetched and the classification returns a result),
  the loop from batch \<open>batchIdx\<close> returns and waits once after every batch but the last.
\<close>

lemma batchLoop_delays_all_succeed:
  assumes "\<forall>rs w. \<exists>infos. fst (fetchReadmesForBatch svc rs w) = Inr infos"
    and "\<forall>infos w. fst (classifyBatch svc infos w) \<noteq> None"
  shows "\<exists>st'. batchLoop svc batchSize batchDelay repos totalBatches batchIdx st = Inr st' \<and>
           delays st' = delays st @ replicate (totalBatches - 1 - batchIdx) batchDelay"
  using assms
proof (induction svc batchSize batchDelay repos totalBatches batchIdx st rule: batchLoop.induct)
  case (1 svc batchSize batchDelay repos totalBatches batchIdx st)
  show ?case
  proof (cases "batchIdx < totalBatches")
    case False
    then show ?thesis by (subst batchLoop.simps) simp
  next
    case True
    from batchBody_all_succeed [OF "1.prems", of batchSize batchDelay repos totalBatches batchIdx st]
    obtain st1 where b: "batchBody svc batchSize batchDelay repos totalBatches batchIdx st = Inr st1"
      and d1: "delays st1 = delays st @ (if batchIdx + 1 < totalBatches then [batchDelay] else [])"
      by blast
    from "1.IH" [OF True b "1.prems"]
    obtain st' where r: "batchLoop svc batchSize batchDelay repos totalBatches (batchIdx + 1) st1
          = Inr st'"
      and d: "delays st' = delays st1 @ replicate (totalBatches - 1 - (batchIdx + 1)) batchDelay"
      by blast
    have step: "batchLoop svc batchSize batchDelay repos totalBatches batchIdx st = Inr st'"
      using True r by (subst batchLoop.simps) (simp add: b)
    have "delays st1 @ replicate (totalBatches - 1 - (batchIdx + 1)) batchDelay =
          delays st @ replicate (totalBatches - 1 - batchIdx) batchDelay"
    proof (cases "batchIdx + 1 < totalBatches")
      case True
      then have "totalBatches - 1 - batchIdx = Suc (totalBatches - 1 - (batchIdx + 1))" by simp
      then show ?thesis using True by (simp add: d1)
    next
      case False
      then have "totalBatches - 1 - batchIdx = 0" "totalBatches - 1 - (batchIdx + 1) = 0"
        by simp_all
      then show ?thesis using False by (simp add: d1)
    qed
    with step d show ?thesis by simp
  qed
qed

lemma classifyAndAddRepos_delays_all_succeed:
  assumes "0 < batchSize"
    and "\<forall>rs w. \<exists>infos. fst (fetchReadmesForBatch svc rs w) = Inr infos"
    and "\<forall>infos w. fst (classifyBatch svc infos w) \<noteq> None"
  shows "\<exists>st'. classifyAndAddRepos svc batchSize batchDelay repos w = Some (Inr st') \<and>
           delays st' = replicate (ceilDiv (length repos) batchSize - 1) batchDelay"
  using assms(1)
    batchLoop_delays_all_succeed [OF assms(2,3), of batchSize batchDelay repos
      "ceilDiv (length repos) batchSize" 0 "\<lparr>success = 0, failed = 0, delays = [], world = w\<rparr>"]
  by (simp add: classifyAndAddRepos_def)

text \<open>
  The services of the failing run: the READMEs are fetched, the first classification
  fails and the later ones succeed (the world counts the classifications), and every
  repository is added.
\<close>

definition firstClassificationFails :: "(string, string, string list, string, nat) Services" where
  "firstClassificationFails =
     \<lparr>fetchReadmesForBatch = (\<lambda>rs w. (Inr rs, w)),
      classifyBatch = (\<lambda>infos w. (if w = 0 then None else Some [''Lang: Python''], w + 1)),
      addReposToLists = (\<lambda>rs res w.
        (map (\<lambda>r. \<lparr>resultRepoId = r, succeeded = True, resultCategories = Some res,
                    resultError = None\<rparr>) rs, w))\<rparr>"

text \<open>
  Claim C8 on \<open>classifyAndAddRepos\<close>: two repositories in batches of one are two batches,
  so the claim has one delay. The classification of the first batch fails, the body ends
  at \<open>continue\<close>, and no delay is waited before the second batch.
\<close>

theorem failed_batch_skips_delay:
  "classifyAndAddRepos firstClassificationFails 1 2000 [''owner/repo1'', ''owner/repo2''] 0
     = Some (Inr \<lparr>success = 1, failed = 1, delays = [], world = 2\<rparr>) \<and>
   ceilDiv (length [''owner/repo1'', ''owner/repo2'']) 1 - 1 = 1"
  by code_simp


section \<open>The batch scheduler\<close>

text \<open>
  Modelled from the spec: \<open>processBatch\<close> of \<open>src/utils/rate-limiter.ts\<close>, which is not
  among the sources (its tests are). The spec: the items are cut, in order, into chunks of
  \<open>batchSize\<close>; each item goes to the processor with its position in the whole input;
  after a chunk, if it is not the last, \<open>batchDelayMs\<close> is waited; after every chunk the
  progress is reported with the number of items done so far; a failure of the processor
  fails the call. With a batch size of 0 no chunk makes progress and the call on a
  non-empty input never returns (\<open>None\<close>).
\<close>

record 'b BatchRun =
  processed :: "'b list"
  pauses :: "int list"
  progress :: "(nat \<times> nat) list"

text \<open>
  Modelled from the spec: one chunk of \<open>processBatch\<close> (absent from the sources): the
  results of the processor in the order of the chunk, or its first failure.
\<close>

fun processChunk :: "('a \<Rightarrow> nat \<Rightarrow> 'e + 'b) \<Rightarrow> (nat \<times> 'a) list \<Rightarrow> 'e + 'b list" where
  "processChunk processor [] = Inr []"
| "processChunk processor ((i, x) # chunk) =
     (case processor x i of
        Inl e \<Rightarrow> Inl e
      | Inr y \<Rightarrow> (case processChunk processor chunk of Inl e \<Rightarrow> Inl e | Inr ys \<Rightarrow> Inr (y # ys)))"

text \<open>
  Modelled from the spec: the loop of \<open>processBatch\<close> (absent from the sources) over the
  chunks of the items that remain.
\<close>

function chunkLoop ::
  "('a \<Rightarrow> nat \<Rightarrow> 'e + 'b) \<Rightarrow> nat \<Rightarrow> int \<Rightarrow> nat \<Rightarrow> (nat \<times> 'a) list \<Rightarrow> 'b BatchRun \<Rightarrow> 'e + 'b BatchRun" where
  "chunkLoop processor batchSize batchDelayMs totalItems rest run =
     (if rest = [] \<or> batchSize = 0 then Inr run
      else (case processChunk processor (take batchSize rest) of
              Inl e \<Rightarrow> Inl e
            | Inr ys \<Rightarrow>
                chunkLoop processor batchSize batchDelayMs totalItems (drop batchSize rest)
                  (run\<lparr>processed := processed run @ ys,
                       pauses := pauses run @
                         (if drop batchSize rest \<noteq> [] then [batchDelayMs] else []),
                       progress := progress run @ [(length (processed run) + length ys, totalItems)]\<rparr>)))"
  by pat_completeness auto
termination
  by (relation "measure (\<lambda>(processor, batchSize, batchDelayMs, totalItems, rest, run). length rest)")
    auto

declare chunkLoop.simps [simp del]

text \<open>
  Modelled from the spec: \<open>processBatch\<close> (absent from the sources).
\<close>

definition processBatch ::
  "'a list \<Rightarrow> ('a \<Rightarrow> nat \<Rightarrow> 'e + 'b) \<Rightarrow> nat \<Rightarrow> int \<Rightarrow> ('e + 'b BatchRun) option" where
  "processBatch items processor batchSize batchDelayMs =
     (if batchSize = 0 \<and> items \<noteq> [] then None
      else Some (chunkLoop processor batchSize batchDelayMs (length items)
                   (zip [0 ..< length items] items)
                   \<lparr>processed = [], pauses = [], progress = []\<rparr>))"

lemma processChunk_succeeds:
  "\<forall>x i. \<exists>y. processor x i = Inr y \<Longrightarrow> \<exists>ys. processChunk processor chunk = Inr ys"
proof (induction chunk)
  case Nil
  then show ?case by simp
next
  case (Cons c chunk)
  obtain i x where c: "c = (i, x)" by (cases c)
  from Cons.prems obtain y where "processor x i = Inr y" by blast
  moreover from Cons obtain ys where "processChunk processor chunk = Inr ys" by blast
  ultimately show ?case by (simp add: c)
qed

lemma ceilDiv_small: "0 < n \<Longrightarrow> n \<le> b \<Longrightarrow> ceilDiv n b = 1"
  by (simp add: ceilDiv_def div_nat_eqI)

lemma ceilDiv_step: "0 < b \<Longrightarrow> b < n \<Longrightarrow> ceilDiv n b = Suc (ceilDiv (n - b) b)"
proof -
  assume b: "0 < b" and n: "b < n"
  then have "n + b - 1 = (n - b + b - 1) + b" by simp
  then have "(n + b - 1) div b = (n - b + b - 1) div b + 1"
    using b by (metis div_add_self2 less_numeral_extra(3))
  then show ?thesis by (simp add: ceilDiv_def)
qed

lemma chunkLoop_pauses:
  assumes "0 < batchSize" and "\<forall>x i. \<exists>y. processor x i = Inr y"
  shows "\<exists>run'. chunkLoop processor batchSize batchDelayMs totalItems rest run = Inr run' \<and>
           pauses run' = pauses run @ replicate (ceilDiv (length rest) batchSize - 1) batchDelayMs"
  using assms
proof (induction processor batchSize batchDelayMs totalItems rest run rule: chunkLoop.induct)
  case (1 processor batchSize batchDelayMs totalItems rest run)
  show ?case
  proof (cases "rest = []")
    case True
    then show ?thesis
      using "1.prems"(1) by (subst chunkLoop.simps) (simp add: ceilDiv_def)
  next
    case False
    from processChunk_succeeds [OF "1.prems"(2), of "take batchSize rest"]
    obtain ys where ys: "processChunk processor (take batchSize rest) = Inr ys" by blast
    let ?run1 = "run\<lparr>processed := processed run @ ys,
                     pauses := pauses run @
                       (if drop batchSize rest \<noteq> [] then [batchDelayMs] else []),
                     progress := progress run @ [(length (processed run) + length ys, totalItems)]\<rparr>"
    have ne: "\<not> (rest = [] \<or> batchSize = 0)" using False "1.prems"(1) by simp
    from "1.IH" [OF ne ys "1.prems"]
    obtain run' where r: "chunkLoop processor batchSize batchDelayMs totalItems (drop batchSize rest) ?run1
        = Inr run'"
      and p: "pauses run' = pauses ?run1 @
          replicate (ceilDiv (length (drop batchSize rest)) batchSize - 1) batchDelayMs"
      by blast
    have step: "chunkLoop processor batchSize batchDelayMs totalItems rest run = Inr run'"
      using ne r by (subst chunkLoop.simps) (simp add: ys)
    have "pauses ?run1 @ replicate (ceilDiv (length (drop batchSize rest)) batchSize - 1) batchDelayMs
        = pauses run @ replicate (ceilDiv (length rest) batchSize - 1) batchDelayMs"
    proof (cases "batchSize < length rest")
      case True
      from ceilDiv_step [OF "1.prems"(1) True]
      have "ceilDiv (length rest) batchSize - 1 = ceilDiv (length rest - batchSize) batchSize" by simp
      moreover have "0 < ceilDiv (length rest - batchSize) batchSize"
        using True "1.prems"(1) by (simp add: ceilDiv_def div_greater_zero_iff)
      ultimately show ?thesis
        using True by (simp add: replicate_Suc [symmetric] del: replicate_Suc)
    next
      case False
      with \<open>rest \<noteq> []\<close> have "ceilDiv (length rest) batchSize = 1"
        by (intro ceilDiv_small) auto
      moreover have "ceilDiv 0 batchSize = 0"
        using "1.prems"(1) by (simp add: ceilDiv_def)
      ultimately show ?thesis using False by simp
    qed
    with step p show ?thesis by simp
  qed
qed

text \<open>
  The spec's count of delays, on the scheduler as the spec has it: with a batch size above
  0 and a processor that never fails, \<open>ceil(n/batchSize) - 1\<close> delays for \<open>n\<close> items.
\<close>

lemma processBatch_delay_count:
  assumes "0 < batchSize" and "\<forall>x i. \<exists>y. processor x i = Inr y"
  shows "\<exists>run. processBatch items processor batchSize batchDelayMs = Some (Inr run) \<and>
           pauses run = replicate (ceilDiv (length items) batchSize - 1) batchDelayMs"
  using assms(1)
    chunkLoop_pauses [OF assms, of batchDelayMs "length items" "zip [0 ..< length items] items"
      "\<lparr>processed = [], pauses = [], progress = []\<rparr>"]
  by (simp add: processBatch_def)

end
